theory Spec2Isabelle
  imports Complex_Main "HOL-Library.Word"
begin

unbundle bit_operations_syntax

section \<open>Tiles and levels (common.c)\<close>

type_synonym u8 = "8 word"
type_synonym u64 = "64 word"
type_synonym Tile = "16 word"
type_synonym Level = "Tile list"

definition FLOOR :: nat where "FLOOR = 1"
definition WALL :: nat where "WALL = 2"
definition SPIKES :: nat where "SPIKES = 3"
definition EXIT :: nat where "EXIT = 4"
definition LOCK :: nat where "LOCK = 5"
definition GOLD :: nat where "GOLD = 6"
definition KEY :: nat where "KEY = 7"
definition ENEMY :: nat where "ENEMY = 8"
definition PLAYER :: nat where "PLAYER = 9"

definition LEVEL_SIZE :: nat where "LEVEL_SIZE = 22"

text \<open>\<^verbatim>\<open>#define BIT(n) (1 << (n))\<close>, used at the width of a tile.\<close>

definition BIT :: "nat \<Rightarrow> Tile" where
  "BIT n = push_bit n 1"

text \<open>The cell \<open>(x, y)\<close> lives at \<open>level[x + y * LEVEL_SIZE]\<close>.\<close>

definition idx :: "nat \<times> nat \<Rightarrow> nat" where
  "idx c = fst c + snd c * LEVEL_SIZE"

definition in_grid :: "nat \<times> nat \<Rightarrow> bool" where
  "in_grid c = (fst c < LEVEL_SIZE \<and> snd c < LEVEL_SIZE)"

text \<open>The cells in the order of the loops
  \<^verbatim>\<open>for (y = 0; y < LEVEL_SIZE; ++y) for (x = 0; x < LEVEL_SIZE; ++x)\<close>.\<close>

definition level_cells :: "(nat \<times> nat) list" where
  "level_cells = concat (map (\<lambda>y. map (\<lambda>x. (x, y)) [0..<LEVEL_SIZE]) [0..<LEVEL_SIZE])"

section \<open>Flood fill (common.c, flood)\<close>

text \<open>A visitor \<^verbatim>\<open>bool (*Flood_Func)(Tile *, int x, int y, void *)\<close> receives the tile by
  address and an opaque data pointer: it returns the stop flag, the tile as it leaves it and
  the data as it leaves them.\<close>

type_synonym 'd Flood_Func = "Tile \<Rightarrow> nat \<Rightarrow> nat \<Rightarrow> 'd \<Rightarrow> bool \<times> Tile \<times> 'd"

definition TODO :: u8 where "TODO = 1"
definition DONE :: u8 where "DONE = 2"

record 'd flood_state =
  level :: Level
  todo :: "u8 list"
  steps_taken :: nat
  data :: 'd

text \<open>\<^verbatim>\<open>if (todo[j] != DONE) todo[j] = TODO;\<close>\<close>

definition mark_todo :: "nat \<Rightarrow> u8 list \<Rightarrow> u8 list" where
  "mark_todo j td = (if td ! j \<noteq> DONE then td[j := TODO] else td)"

definition add_neighbours :: "nat \<Rightarrow> nat \<Rightarrow> u8 list \<Rightarrow> u8 list" where
  "add_neighbours x y td =
    (let td1 = (if x > 0 then mark_todo ((x - 1) + y * LEVEL_SIZE) td else td);
         td2 = (if x < LEVEL_SIZE - 1 then mark_todo ((x + 1) + y * LEVEL_SIZE) td1 else td1);
         td3 = (if y > 0 then mark_todo (x + (y - 1) * LEVEL_SIZE) td2 else td2);
         td4 = (if y < LEVEL_SIZE - 1 then mark_todo (x + (y + 1) * LEVEL_SIZE) td3 else td3)
     in td4)"

text \<open>The body run for a cell marked TODO: the result is the stop flag and the state.\<close>

definition flood_visit ::
  "Tile \<Rightarrow> Tile \<Rightarrow> 'd Flood_Func \<Rightarrow> nat \<Rightarrow> nat \<Rightarrow> 'd flood_state \<Rightarrow> bool \<times> 'd flood_state" where
  "flood_visit msk target func x y st =
    (let i = x + y * LEVEL_SIZE in
     if (level st ! i) AND msk = target AND msk then
       (case func (level st ! i) x y (data st) of
          (stop, t', d') \<Rightarrow>
            let st1 = st\<lparr>level := (level st)[i := t'], data := d'\<rparr> in
            if stop then (True, st1)
            else (False, st1\<lparr>todo := add_neighbours x y ((todo st1)[i := DONE]),
                              steps_taken := steps_taken st1 + 1\<rparr>))
     else (False, st))"

text \<open>One sweep over the grid: the result is the stop flag, \<open>cleared_todo\<close> and the state.\<close>

fun flood_cells ::
  "Tile \<Rightarrow> Tile \<Rightarrow> 'd Flood_Func \<Rightarrow> (nat \<times> nat) list \<Rightarrow> bool \<Rightarrow> 'd flood_state
    \<Rightarrow> bool \<times> bool \<times> 'd flood_state" where
  "flood_cells msk target func [] cleared_todo st = (False, cleared_todo, st)"
| "flood_cells msk target func (c # cs) cleared_todo st =
    (if todo st ! (fst c + snd c * LEVEL_SIZE) = TODO then
       (case flood_visit msk target func (fst c) (snd c) st of
          (stop, st') \<Rightarrow>
            if stop then (True, False, st')
            else flood_cells msk target func cs False st')
     else flood_cells msk target func cs cleared_todo st)"

text \<open>\<^verbatim>\<open>for (int i = 0; i < LEVEL_SIZE * LEVEL_SIZE; ++i)\<close>: the first argument counts the
  sweeps that are left.\<close>

fun flood_loop :: "Tile \<Rightarrow> Tile \<Rightarrow> 'd Flood_Func \<Rightarrow> nat \<Rightarrow> 'd flood_state \<Rightarrow> 'd flood_state" where
  "flood_loop msk target func 0 st = st"
| "flood_loop msk target func (Suc n) st =
    (case flood_cells msk target func level_cells True st of
       (stop, cleared_todo, st') \<Rightarrow>
         if stop \<or> cleared_todo then st' else flood_loop msk target func n st')"

text \<open>The result is the returned step count, the level and the data as the visitor left
  them. The start cell is expected inside the grid (beyond the array the C is undefined).\<close>

definition flood ::
  "Level \<Rightarrow> nat \<Rightarrow> nat \<Rightarrow> Tile \<Rightarrow> Tile \<Rightarrow> 'd Flood_Func \<Rightarrow> 'd \<Rightarrow> nat \<times> Level \<times> 'd" where
  "flood lvl start_x start_y msk target func d =
    (let st0 = \<lparr>level = lvl,
                todo = (replicate (LEVEL_SIZE * LEVEL_SIZE) 0)[start_x + start_y * LEVEL_SIZE := TODO],
                steps_taken = 0, data = d\<rparr>;
         st = flood_loop msk target func (LEVEL_SIZE * LEVEL_SIZE) st0
     in (steps_taken st, level st, data st))"

text \<open>\<^verbatim>\<open>*result |= *tile; return false;\<close>\<close>

definition flood_record_tiles :: "Tile Flood_Func" where
  "flood_record_tiles tile x y result = (False, tile, result OR tile)"

fun find_player_cells :: "Level \<Rightarrow> (nat \<times> nat) list \<Rightarrow> (nat \<times> nat) option" where
  "find_player_cells lvl [] = None"
| "find_player_cells lvl (c # cs) =
    (if lvl ! (fst c + snd c * LEVEL_SIZE) AND BIT PLAYER \<noteq> 0 then Some c
     else find_player_cells lvl cs)"

definition find_player :: "Level \<Rightarrow> (nat \<times> nat) option" where
  "find_player lvl = find_player_cells lvl level_cells"

text \<open>The level is passed by address, so the result is the returned flag and the level as
  the call leaves it.\<close>

definition level_is_completable :: "Level \<Rightarrow> bool \<times> Level" where
  "level_is_completable lvl =
    (case find_player lvl of
       None \<Rightarrow> (False, lvl)
     | Some (px, py) \<Rightarrow>
         (case flood lvl px py (BIT FLOOR OR BIT WALL OR BIT SPIKES) (BIT FLOOR)
                 flood_record_tiles 0 of
            (steps, lvl', entities_seen) \<Rightarrow>
              (entities_seen AND (BIT KEY OR BIT EXIT) = (BIT KEY OR BIT EXIT), lvl')))"

section \<open>The pseudo-random source (common.c)\<close>

text \<open>\<^verbatim>\<open>u64 random_seed[2]\<close>: the two words of the generator's state.\<close>

type_synonym random_seed = "u64 \<times> u64"

text \<open>\<^verbatim>\<open>#define LS(x, k) ((x << k) | (x >> (64 - k)))\<close>\<close>

definition LS :: "u64 \<Rightarrow> nat \<Rightarrow> u64" where
  "LS x k = push_bit k x OR drop_bit (64 - k) x"

definition random_u64 :: "random_seed \<Rightarrow> u64 \<times> random_seed" where
  "random_u64 seed =
    (let s0 = fst seed; s1 = snd seed;
         result = s0 + s1;
         s1 = s1 XOR s0
     in (result, (LS s0 55 XOR s1 XOR push_bit 14 s1, LS s1 36)))"

subsection \<open>Single-precision arithmetic\<close>

text \<open>A \<^verbatim>\<open>float\<close> is taken to be an IEEE 754 binary32 number, every operation rounded to
  the nearest one, ties to even, with no excess precision and no fused operations. A float
  is modelled by its exact value. The values met here are 0 or lie between \<open>2 powi - 64\<close>
  and \<open>2 ^ 65\<close>, far from the subnormal numbers and from overflow, which the model leaves
  out.\<close>

type_synonym float = rat

text \<open>The number of binary digits of a positive integer.\<close>

function bit_length :: "int \<Rightarrow> int" where
  "bit_length n = (if n \<le> 0 then 0 else 1 + bit_length (n div 2))"
  by pat_completeness auto
termination
  by (relation "measure nat") auto

declare bit_length.simps [simp del]

text \<open>The binary exponent of \<open>q \<noteq> 0\<close>: the \<open>e\<close> with \<open>2 powi e \<le> \<bar>q\<bar>\<close> and
  \<open>\<bar>q\<bar> < 2 powi (e + 1)\<close>.\<close>

definition ilog2 :: "rat \<Rightarrow> int" where
  "ilog2 q =
    (let (n, d) = quotient_of \<bar>q\<bar>;
         e = bit_length n - bit_length d
     in if 2 powi e \<le> \<bar>q\<bar> then e else e - 1)"

definition round_even :: "rat \<Rightarrow> int" where
  "round_even q =
    (let f = \<lfloor>q\<rfloor>; r = q - of_int f
     in if r < 1 / 2 then f else if 1 / 2 < r then f + 1 else if even f then f else f + 1)"

text \<open>Rounding to 24 significant binary digits.\<close>

definition float_round :: "rat \<Rightarrow> float" where
  "float_round q =
    (if q = 0 then 0
     else let ulp = 2 powi (ilog2 q - 23) in of_int (round_even (q / ulp)) * ulp)"

definition float_of_u64 :: "u64 \<Rightarrow> float" where
  "float_of_u64 u = float_round (of_int (uint u))"

definition float_of_int :: "int \<Rightarrow> float" where
  "float_of_int i = float_round (of_int i)"

text \<open>The conversion of a float to \<^verbatim>\<open>int\<close> drops the fraction.\<close>

definition int_of_float :: "float \<Rightarrow> int" where
  "int_of_float q = (if 0 \<le> q then \<lfloor>q\<rfloor> else \<lceil>q\<rceil>)"

definition UINT64_MAX :: u64 where
  "UINT64_MAX = 18446744073709551615"

text \<open>\<^verbatim>\<open>return (float)random_u64() / (float)UINT64_MAX;\<close>\<close>

definition random_float :: "random_seed \<Rightarrow> float \<times> random_seed" where
  "random_float seed =
    (let (u, seed') = random_u64 seed
     in (float_round (float_of_u64 u / float_of_u64 UINT64_MAX), seed'))"

text \<open>\<^verbatim>\<open>int d = abs(high - low) + 1; return random_float() * d + low;\<close> The \<^verbatim>\<open>int\<close>s are
  modelled unbounded. This is the C function as long as \<^verbatim>\<open>high - low\<close>, \<^verbatim>\<open>d\<close> and the
  value converted back fit an \<^verbatim>\<open>int\<close>, which they do at the bounds of every call in the
  sources (1 and 20, 1 and 21); for wider bounds the C arithmetic overflows, and the model
  is not meant for them.\<close>

definition random_int_range :: "int \<Rightarrow> int \<Rightarrow> random_seed \<Rightarrow> int \<times> random_seed" where
  "random_int_range low high seed =
    (let d = \<bar>high - low\<bar> + 1;
         (f, seed') = random_float seed
     in (int_of_float (float_round (float_round (f * float_of_int d) + float_of_int low)),
         seed'))"

definition chance :: "float \<Rightarrow> random_seed \<Rightarrow> bool \<times> random_seed" where
  "chance chance_to_be_true seed =
    (let (f, seed') = random_float seed in (f \<le> chance_to_be_true, seed'))"

section \<open>Level files (common.c)\<close>

text \<open>A stream is the bytes of its file, a position in them, and the bytes that the stream
  has accepted from \<^verbatim>\<open>fwrite\<close> into its buffer and not handed to the file yet. The tiles
  are stored in the byte order of the machine, which is a parameter.\<close>

datatype byte_order = Little_Endian | Big_Endian

record FILE =
  contents :: "u8 list"
  position :: nat
  buffered :: "u8 list"

definition bytes_of_tile :: "byte_order \<Rightarrow> Tile \<Rightarrow> u8 list" where
  "bytes_of_tile bo t =
    (case bo of
       Little_Endian \<Rightarrow> [ucast t, ucast (drop_bit 8 t)]
     | Big_Endian \<Rightarrow> [ucast (drop_bit 8 t), ucast t])"

definition tile_of_bytes :: "byte_order \<Rightarrow> u8 \<Rightarrow> u8 \<Rightarrow> Tile" where
  "tile_of_bytes bo a b =
    (case bo of
       Little_Endian \<Rightarrow> ucast a OR push_bit 8 (ucast b)
     | Big_Endian \<Rightarrow> ucast b OR push_bit 8 (ucast a))"

fun tiles_of_bytes :: "byte_order \<Rightarrow> u8 list \<Rightarrow> Tile list" where
  "tiles_of_bytes bo (a # b # bs) = tile_of_bytes bo a b # tiles_of_bytes bo bs"
| "tiles_of_bytes bo bs = []"

text \<open>\<^verbatim>\<open>fread(buf, sizeof(Tile), count, file)\<close>: the bytes of the rest of the file, those of
  \<open>count\<close> tiles at most, are copied over the first bytes of the buffer, and the position moves
  past them; the result starts with the number of tiles read whole. When the file ends in the
  middle of a tile, the bytes of that tile that were there are copied too, as the common
  libraries do (C leaves the value of such a tile indeterminate).\<close>

definition fread_tiles :: "byte_order \<Rightarrow> Level \<Rightarrow> nat \<Rightarrow> FILE \<Rightarrow> nat \<times> Level \<times> FILE" where
  "fread_tiles bo buf count file =
    (let got = take (2 * count) (drop (position file) (contents file));
         mem = concat (map (bytes_of_tile bo) buf)
     in (length got div 2, tiles_of_bytes bo (got @ drop (length got) mem),
         file\<lparr>position := position file + length got\<rparr>))"

text \<open>\<^verbatim>\<open>fflush(file)\<close>, which \<^verbatim>\<open>fclose\<close> and \<^verbatim>\<open>exit\<close> do too, and which \<^verbatim>\<open>fwrite\<close> does
  when the buffer is full or the stream has none: the buffered bytes go to the file at the
  position, as many as the device takes, \<open>dev\<close>; the result starts with whether all of them
  went.\<close>

definition fflush :: "nat \<Rightarrow> FILE \<Rightarrow> bool \<times> FILE" where
  "fflush dev file =
    (let out = take dev (buffered file)
     in (length (buffered file) \<le> dev,
         file\<lparr>contents := take (position file) (contents file) @ out @
                  drop (position file + length out) (contents file),
               position := position file + length out,
               buffered := drop dev (buffered file)\<rparr>))"

text \<open>\<^verbatim>\<open>fwrite(buf, sizeof(Tile), count, file)\<close>: the stream accepts the bytes of the tiles
  into its buffer, \<open>room\<close> of them at most (fewer than all of them only after an error of the
  device), and hands \<open>dev\<close> bytes of its buffer to the file during the call: none while the
  buffer has space, as for the 968 bytes of a level on a fresh buffered \<^verbatim>\<open>stdout\<close>; all of
  them on an unbuffered stream whose device takes them. The result starts with the number of
  tiles accepted whole.\<close>

definition fwrite_tiles ::
  "byte_order \<Rightarrow> Level \<Rightarrow> nat \<Rightarrow> nat \<Rightarrow> nat \<Rightarrow> FILE \<Rightarrow> nat \<times> FILE" where
  "fwrite_tiles bo buf count room dev file =
    (let bytes = take room (concat (map (bytes_of_tile bo) (take count buf)))
     in (length bytes div 2, snd (fflush dev (file\<lparr>buffered := buffered file @ bytes\<rparr>))))"

text \<open>\<^verbatim>\<open>return (bool)fread(level, sizeof(Tile), LEVEL_SIZE * LEVEL_SIZE, file);\<close>\<close>

definition load_level :: "byte_order \<Rightarrow> FILE \<Rightarrow> Level \<Rightarrow> bool \<times> Level \<times> FILE" where
  "load_level bo file lvl =
    (case fread_tiles bo lvl (LEVEL_SIZE * LEVEL_SIZE) file of
       (n, lvl', file') \<Rightarrow> (n \<noteq> 0, lvl', file'))"

text \<open>\<^verbatim>\<open>return (bool)fwrite(level, sizeof(Tile), LEVEL_SIZE * LEVEL_SIZE, file);\<close>\<close>

definition write_level :: "byte_order \<Rightarrow> nat \<Rightarrow> nat \<Rightarrow> FILE \<Rightarrow> Level \<Rightarrow> bool \<times> FILE" where
  "write_level bo room dev file lvl =
    (case fwrite_tiles bo lvl (LEVEL_SIZE * LEVEL_SIZE) room dev file of
       (n, file') \<Rightarrow> (n \<noteq> 0, file'))"


section \<open>Generators (level.c)\<close>

text \<open>\<^verbatim>\<open>for (y ...) for (x ...) level[x + y * LEVEL_SIZE] = BIT(entity);\<close>\<close>

definition fill_level :: "Level \<Rightarrow> nat \<Rightarrow> Level" where
  "fill_level lvl entity = foldl (\<lambda>l c. l[idx c := BIT entity]) lvl level_cells"

text \<open>An access outside the array is undefined in C: the model stops there with an error.
  It also stops on a negative coordinate, which no draw between positive bounds gives.\<close>

datatype error = Out_Of_Bounds

definition tile_index :: "int \<Rightarrow> int \<Rightarrow> nat option" where
  "tile_index x y =
    (if 0 \<le> x \<and> 0 \<le> y \<and> x + y * int LEVEL_SIZE < int (LEVEL_SIZE * LEVEL_SIZE)
     then Some (nat x + nat y * LEVEL_SIZE) else None)"

subsection \<open>The subtractive generators\<close>

text \<open>How one attempt to place a wall ends: on the player's tile it is skipped
  (\<^verbatim>\<open>continue\<close>), otherwise the wall is taken out again or kept (\<^verbatim>\<open>break\<close>).\<close>

datatype attempt = Skipped | Rejected | Accepted

text \<open>The body of the inner loop of \<^verbatim>\<open>reverse_verified_scatter_generator\<close> once the
  location \<open>i\<close> is chosen.\<close>

definition verified_wall :: "Level \<Rightarrow> nat \<Rightarrow> attempt \<times> Level" where
  "verified_wall lvl i =
    (if lvl ! i AND BIT PLAYER \<noteq> 0 then (Skipped, lvl)
     else
       let lvl1 = lvl[i := lvl ! i OR BIT WALL] in
       (case level_is_completable lvl1 of
          (ok, lvl2) \<Rightarrow>
            if \<not> ok then (Rejected, lvl2[i := lvl2 ! i XOR BIT WALL])
            else (Accepted, lvl2[i := BIT WALL])))"

text \<open>One round of the inner loop: the draws, then the body.\<close>

definition verified_wall_attempt ::
  "Level \<Rightarrow> random_seed \<Rightarrow> error + attempt \<times> Level \<times> random_seed" where
  "verified_wall_attempt lvl seed =
    (let (x, seed1) = random_int_range 1 (int LEVEL_SIZE - 2) seed;
         (y, seed2) = random_int_range 1 (int LEVEL_SIZE - 2) seed1
     in case tile_index x y of
          None \<Rightarrow> Inl Out_Of_Bounds
        | Some i \<Rightarrow> (case verified_wall lvl i of (a, lvl') \<Rightarrow> Inr (a, lvl', seed2)))"

text \<open>\<^verbatim>\<open>for (int i = 0; i < attempts; ++i)\<close>: the first argument counts the attempts left.\<close>

fun verified_wall_attempts ::
  "nat \<Rightarrow> Level \<Rightarrow> random_seed \<Rightarrow> error + Level \<times> random_seed" where
  "verified_wall_attempts 0 lvl seed = Inr (lvl, seed)"
| "verified_wall_attempts (Suc n) lvl seed =
    (case verified_wall_attempt lvl seed of
       Inl e \<Rightarrow> Inl e
     | Inr (Accepted, lvl', seed') \<Rightarrow> Inr (lvl', seed')
     | Inr (a, lvl', seed') \<Rightarrow> verified_wall_attempts n lvl' seed')"

fun verified_walls :: "nat \<Rightarrow> nat \<Rightarrow> Level \<Rightarrow> random_seed \<Rightarrow> error + Level \<times> random_seed" where
  "verified_walls attempts 0 lvl seed = Inr (lvl, seed)"
| "verified_walls attempts (Suc n) lvl seed =
    (case verified_wall_attempts attempts lvl seed of
       Inl e \<Rightarrow> Inl e
     | Inr (lvl', seed') \<Rightarrow> verified_walls attempts n lvl' seed')"

text \<open>\<^verbatim>\<open>wall_count = 4.0f * (LEVEL_SIZE * LEVEL_SIZE)\<close>, which is 1936, and 32 attempts.\<close>

definition reverse_verified_scatter_generator ::
  "Level \<Rightarrow> random_seed \<Rightarrow> error + Level \<times> random_seed" where
  "reverse_verified_scatter_generator lvl seed = verified_walls 32 (4 * (LEVEL_SIZE * LEVEL_SIZE)) lvl seed"

text \<open>\<^verbatim>\<open>if (*tile & ~(BIT(FLOOR) | BIT(WALL) | BIT(SPIKES))) *count += 1; return false;\<close>\<close>

definition count_entities :: "int Flood_Func" where
  "count_entities tile x y count =
    (False, tile,
     if tile AND NOT (BIT FLOOR OR BIT WALL OR BIT SPIKES) \<noteq> 0 then count + 1 else count)"

text \<open>The body of the inner loop of \<^verbatim>\<open>reverse_entity_preserving_scatter_generator\<close>. The
  counter \<^verbatim>\<open>counted_entities\<close> is not initialised: the value it starts from is the argument
  \<open>garbage\<close>. Without a player the function returns at once, the wall left in: the attempt
  is then \<open>None\<close>.\<close>

definition preserving_wall :: "int \<Rightarrow> int \<Rightarrow> Level \<Rightarrow> nat \<Rightarrow> attempt option \<times> Level" where
  "preserving_wall actual_entity_count garbage lvl i =
    (if lvl ! i AND BIT PLAYER \<noteq> 0 then (Some Skipped, lvl)
     else
       let lvl1 = lvl[i := lvl ! i OR BIT WALL] in
       (case find_player lvl1 of
          None \<Rightarrow> (None, lvl1)
        | Some (px, py) \<Rightarrow>
            (case flood lvl1 px py (BIT FLOOR OR BIT WALL OR BIT SPIKES) (BIT FLOOR)
                    count_entities garbage of
               (steps, lvl2, counted_entities) \<Rightarrow>
                 if \<not> (actual_entity_count = counted_entities)
                 then (Some Rejected, lvl2[i := lvl2 ! i XOR BIT WALL])
                 else (Some Accepted, lvl2[i := BIT WALL]))))"

text \<open>The rows of \<^verbatim>\<open>reverse_verified_fill_generator\<close>: the loop over \<open>x\<close> in one row, with
  its \<^verbatim>\<open>break\<close> after a wall that is kept.\<close>

fun fill_row :: "nat \<Rightarrow> nat list \<Rightarrow> Level \<Rightarrow> Level" where
  "fill_row y [] lvl = lvl"
| "fill_row y (x # xs) lvl =
    (let i = x + y * LEVEL_SIZE;
         lvl1 = lvl[i := lvl ! i OR BIT WALL]
     in case level_is_completable lvl1 of
          (ok, lvl2) \<Rightarrow>
            if \<not> ok then fill_row y xs (lvl2[i := lvl2 ! i XOR BIT WALL])
            else lvl2[i := BIT WALL])"

definition reverse_verified_fill_generator :: "Level \<Rightarrow> Level" where
  "reverse_verified_fill_generator lvl =
    foldl (\<lambda>l y. fill_row y [1..<LEVEL_SIZE - 1] l) lvl [1..<LEVEL_SIZE - 1]"

subsection \<open>The verified placer\<close>

text \<open>The cells of the loops \<^verbatim>\<open>for (y = 1; y < LEVEL_SIZE-1; ++y) for (x = 1; ...)\<close>.\<close>

definition interior_cells :: "(nat \<times> nat) list" where
  "interior_cells =
    concat (map (\<lambda>y. map (\<lambda>x. (x, y)) [1..<LEVEL_SIZE - 1]) [1..<LEVEL_SIZE - 1])"

definition scatter_tile :: "float \<Rightarrow> float \<Rightarrow> float \<Rightarrow> Tile \<Rightarrow> random_seed \<Rightarrow> Tile \<times> random_seed" where
  "scatter_tile gold_chance enemy_chance spikes_chance t seed =
    (if t AND BIT WALL = 0 then
       (case chance gold_chance seed of
          (gold, seed1) \<Rightarrow>
            if gold then (t OR BIT GOLD, seed1)
            else
              (case chance enemy_chance seed1 of
                 (enemy, seed2) \<Rightarrow>
                   if enemy then (t OR BIT ENEMY, seed2)
                   else
                     (case chance spikes_chance seed2 of
                        (spikes, seed3) \<Rightarrow>
                          if spikes then (t OR BIT SPIKES, seed3) else (t, seed3))))
     else (t, seed))"

fun scatter_entities ::
  "float \<Rightarrow> float \<Rightarrow> float \<Rightarrow> (nat \<times> nat) list \<Rightarrow> Level \<Rightarrow> random_seed \<Rightarrow> Level \<times> random_seed" where
  "scatter_entities g e s [] lvl seed = (lvl, seed)"
| "scatter_entities g e s (c # cs) lvl seed =
    (case scatter_tile g e s (lvl ! idx c) seed of
       (t, seed') \<Rightarrow> scatter_entities g e s cs (lvl[idx c := t]) seed')"

text \<open>\<^verbatim>\<open>do { x = ...; y = ...; } while (level[x + y * LEVEL_SIZE] != BIT(FLOOR));\<close> The loop
  has no bound: \<open>None\<close> is the run that never ends.\<close>

partial_function (option) choose_floor ::
  "Level \<Rightarrow> random_seed \<Rightarrow> (error + nat \<times> random_seed) option" where
  "choose_floor lvl seed =
    (case random_int_range 1 (int LEVEL_SIZE - 1) seed of
       (x, seed1) \<Rightarrow>
         (case random_int_range 1 (int LEVEL_SIZE - 1) seed1 of
            (y, seed2) \<Rightarrow>
              (case tile_index x y of
                 None \<Rightarrow> Some (Inl Out_Of_Bounds)
               | Some i \<Rightarrow>
                   if lvl ! i \<noteq> BIT FLOOR then choose_floor lvl seed2
                   else Some (Inr (i, seed2)))))"

text \<open>The loops that place the key and the player: each round draws a cell, floods from it
  into the accumulator \<^verbatim>\<open>seen_entity_types\<close>, and goes on
  \<^verbatim>\<open>while (level[i] != BIT(FLOOR) && (seen_entity_types & wanted) == 0)\<close>, where \<open>wanted\<close>
  is \<^verbatim>\<open>BIT(EXIT)\<close> for the key and \<^verbatim>\<open>BIT(EXIT) | BIT(KEY)\<close> for the player.\<close>

partial_function (option) choose_verified ::
  "Tile \<Rightarrow> Level \<Rightarrow> Tile \<Rightarrow> random_seed \<Rightarrow> (error + nat \<times> Level \<times> random_seed) option" where
  "choose_verified wanted lvl seen_entity_types seed =
    (case random_int_range 1 (int LEVEL_SIZE - 1) seed of
       (x, seed1) \<Rightarrow>
         (case random_int_range 1 (int LEVEL_SIZE - 1) seed1 of
            (y, seed2) \<Rightarrow>
              (case tile_index x y of
                 None \<Rightarrow> Some (Inl Out_Of_Bounds)
               | Some i \<Rightarrow>
                   (case flood lvl (nat x) (nat y) (BIT FLOOR OR BIT WALL OR BIT SPIKES)
                           (BIT FLOOR) flood_record_tiles seen_entity_types of
                      (steps, lvl', seen) \<Rightarrow>
                        if lvl' ! i \<noteq> BIT FLOOR \<and> seen AND wanted = 0
                        then choose_verified wanted lvl' seen seed2
                        else Some (Inr (i, lvl', seed2))))))"

declare choose_floor.simps [code] choose_verified.simps [code]

text \<open>\<^verbatim>\<open>parameters\<close> is \<^verbatim>\<open>NULL\<close> or points to three floats. The defaults are the floats
  \<^verbatim>\<open>0.07f\<close> and \<^verbatim>\<open>0.03f\<close>.\<close>

definition verified_scatter_placer ::
  "Level \<Rightarrow> (float \<times> float \<times> float) option \<Rightarrow> random_seed \<Rightarrow> (error + Level \<times> random_seed) option" where
  "verified_scatter_placer lvl parameters seed =
    (let (gold_chance, enemy_chance, spikes_chance) =
           (case parameters of
              None \<Rightarrow> (9395241 / 134217728, 16106127 / 536870912, 16106127 / 536870912)
            | Some p \<Rightarrow> p);
         (lvl1, seed1) = scatter_entities gold_chance enemy_chance spikes_chance interior_cells lvl seed
     in case choose_floor lvl1 seed1 of
          None \<Rightarrow> None
        | Some (Inl e) \<Rightarrow> Some (Inl e)
        | Some (Inr (i, seed2)) \<Rightarrow>
            let lvl2 = lvl1[i := lvl1 ! i OR (BIT EXIT OR BIT LOCK)] in
            (case choose_verified (BIT EXIT) lvl2 0 seed2 of
               None \<Rightarrow> None
             | Some (Inl e) \<Rightarrow> Some (Inl e)
             | Some (Inr (j, lvl3, seed3)) \<Rightarrow>
                 let lvl4 = lvl3[j := lvl3 ! j OR BIT KEY] in
                 (case choose_verified (BIT EXIT OR BIT KEY) lvl4 0 seed3 of
                    None \<Rightarrow> None
                  | Some (Inl e) \<Rightarrow> Some (Inl e)
                  | Some (Inr (k, lvl5, seed4)) \<Rightarrow>
                      Some (Inr (lvl5[k := lvl5 ! k OR BIT PLAYER], seed4)))))"

section \<open>Reachability, as the specification words it\<close>

text \<open>A tile matches when its masked bits are the target's masked bits.\<close>

definition matches :: "Level \<Rightarrow> Tile \<Rightarrow> Tile \<Rightarrow> nat \<times> nat \<Rightarrow> bool" where
  "matches lvl msk target c = (lvl ! idx c AND msk = target AND msk)"

text \<open>Two cells are adjacent when one orthogonal step leads from one to the other.\<close>

definition adjacent :: "nat \<times> nat \<Rightarrow> nat \<times> nat \<Rightarrow> bool" where
  "adjacent c c' =
    ((snd c' = snd c \<and> (fst c' + 1 = fst c \<or> fst c' = fst c + 1)) \<or>
     (fst c' = fst c \<and> (snd c' + 1 = snd c \<or> snd c' = snd c + 1)))"

text \<open>The connected matching component of the start cell \<open>s\<close>: empty when \<open>s\<close> does not
  match, otherwise the matching cells of the grid that orthogonal steps through matching
  cells reach from \<open>s\<close>.\<close>

inductive_set component :: "Level \<Rightarrow> Tile \<Rightarrow> Tile \<Rightarrow> nat \<times> nat \<Rightarrow> (nat \<times> nat) set"
  for lvl :: Level and msk :: Tile and target :: Tile and s :: "nat \<times> nat" where
  start: "in_grid s \<Longrightarrow> matches lvl msk target s \<Longrightarrow> s \<in> component lvl msk target s"
| step: "c \<in> component lvl msk target s \<Longrightarrow> in_grid c' \<Longrightarrow> adjacent c c' \<Longrightarrow>
         matches lvl msk target c' \<Longrightarrow> c' \<in> component lvl msk target s"

text \<open>A visitor that never signals stop and hands every tile back as it got it.\<close>

definition observer :: "'d Flood_Func \<Rightarrow> bool" where
  "observer func = (\<forall>t x y d. \<not> fst (func t x y d) \<and> fst (snd (func t x y d)) = t)"

text \<open>A visitor that does nothing but note the cells it is called on, in order.\<close>

definition record_cells :: "(nat \<times> nat) list Flood_Func" where
  "record_cells tile x y cells = (False, tile, cells @ [(x, y)])"

text \<open>What one call of the visitor on the cell \<open>c\<close> makes of the data.\<close>

definition visit_data :: "'d Flood_Func \<Rightarrow> Level \<Rightarrow> 'd \<Rightarrow> nat \<times> nat \<Rightarrow> 'd" where
  "visit_data func lvl d c = snd (snd (func (lvl ! idx c) (fst c) (snd c) d))"

text \<open>The invariant of the sweeps, for a list \<open>vs\<close> of the cells visited so far: the cells
  marked DONE are the visited ones, all of the component; every neighbour of a visited cell is
  marked; a marked matching cell is in the component.\<close>

definition todo_inv ::
  "Level \<Rightarrow> Tile \<Rightarrow> Tile \<Rightarrow> nat \<times> nat \<Rightarrow> u8 list \<Rightarrow> (nat \<times> nat) list \<Rightarrow> bool" where
  "todo_inv lvl msk target s td vs =
    (in_grid s \<and> length td = LEVEL_SIZE * LEVEL_SIZE \<and> distinct vs \<and>
     set vs \<subseteq> component lvl msk target s \<and>
     (\<forall>c. in_grid c \<longrightarrow> (td ! idx c = DONE) = (c \<in> set vs)) \<and>
     (\<forall>c c'. c \<in> set vs \<and> in_grid c' \<and> adjacent c c' \<longrightarrow>
        td ! idx c' = TODO \<or> td ! idx c' = DONE) \<and>
     (\<forall>c. in_grid c \<and> td ! idx c = TODO \<and> matches lvl msk target c \<longrightarrow>
        c \<in> component lvl msk target s) \<and>
     (td ! idx s = TODO \<or> td ! idx s = DONE))"

definition flood_inv ::
  "Level \<Rightarrow> Tile \<Rightarrow> Tile \<Rightarrow> nat \<times> nat \<Rightarrow> 'd Flood_Func \<Rightarrow> 'd \<Rightarrow> 'd flood_state
    \<Rightarrow> (nat \<times> nat) list \<Rightarrow> bool" where
  "flood_inv lvl msk target s func d0 st vs =
    (level st = lvl \<and> steps_taken st = length vs \<and>
     data st = foldl (visit_data func lvl) d0 vs \<and>
     todo_inv lvl msk target s (todo st) vs)"

text \<open>Some cell is marked TODO and matches: the sweeps have work left.\<close>

definition pending :: "Level \<Rightarrow> Tile \<Rightarrow> Tile \<Rightarrow> u8 list \<Rightarrow> bool" where
  "pending lvl msk target td =
    (\<exists>c. in_grid c \<and> td ! idx c = TODO \<and> matches lvl msk target c)"

text \<open>The first cell, in the order of the array, whose tile has the player's bit.\<close>

definition first_player :: "Level \<Rightarrow> nat \<times> nat \<Rightarrow> bool" where
  "first_player lvl p =
    (in_grid p \<and> lvl ! idx p AND BIT PLAYER \<noteq> 0 \<and>
     (\<forall>c. in_grid c \<and> idx c < idx p \<longrightarrow> lvl ! idx c AND BIT PLAYER = 0))"

text \<open>The bitwise OR of the tiles of a list of cells.\<close>

definition or_tiles :: "Level \<Rightarrow> (nat \<times> nat) list \<Rightarrow> Tile" where
  "or_tiles lvl vs = foldr (\<lambda>c t. lvl ! idx c OR t) vs 0"

section \<open>Example levels\<close>

text \<open>A level of floor tiles alone, but for the cell \<open>(5, 5)\<close>, which holds the player, the key
  and the exit.\<close>

definition open_level :: Level where
  "open_level = (replicate 484 (BIT FLOOR))[115 := BIT FLOOR OR BIT PLAYER OR BIT KEY OR BIT EXIT]"

text \<open>Levels that keep this tile at \<open>(5, 5)\<close> and have the player's bit nowhere else.\<close>

definition settled :: "Level \<Rightarrow> bool" where
  "settled lvl = (lvl ! 115 = BIT FLOOR OR BIT PLAYER OR BIT KEY OR BIT EXIT \<and>
     (\<forall>j<484. j \<noteq> 115 \<longrightarrow> lvl ! j AND BIT PLAYER = 0))"

text \<open>A level of walls with a corridor of three floor tiles, \<open>(1, 1)\<close>, \<open>(2, 1)\<close> and
  \<open>(3, 1)\<close>; and what \<open>verified_scatter_placer\<close> makes of it from one state of the random
  source: the exit, its lock and the player on \<open>(1, 1)\<close>, spikes on \<open>(2, 1)\<close>, the key on
  \<open>(3, 1)\<close>.\<close>

definition corridor_level :: Level where
  "corridor_level = (replicate 484 (BIT WALL))[23 := BIT FLOOR, 24 := BIT FLOOR, 25 := BIT FLOOR]"

definition placed_level :: Level where
  "placed_level = (replicate 484 (BIT WALL))
     [23 := BIT FLOOR OR (BIT EXIT OR BIT LOCK) OR BIT PLAYER,
      24 := BIT FLOOR OR BIT SPIKES,
      25 := BIT FLOOR OR BIT KEY]"


section \<open>The flood visits the component of its start\<close>

lemma LEVEL_SIZE_pos: "0 < LEVEL_SIZE" by (simp add: LEVEL_SIZE_def)

lemma idx_less: "in_grid c \<Longrightarrow> idx c < LEVEL_SIZE * LEVEL_SIZE"
proof -
  assume a: "in_grid c"
  then have "idx c < LEVEL_SIZE + snd c * LEVEL_SIZE" by (simp add: idx_def in_grid_def)
  also have "\<dots> = Suc (snd c) * LEVEL_SIZE" by simp
  also have "\<dots> \<le> LEVEL_SIZE * LEVEL_SIZE" using a
    by (metis Suc_leI in_grid_def mult_le_mono1)
  finally show ?thesis .
qed

lemma idx_inj: "in_grid c \<Longrightarrow> in_grid c' \<Longrightarrow> idx c = idx c' \<longleftrightarrow> c = c'"
proof
  assume g: "in_grid c" "in_grid c'" and e: "idx c = idx c'"
  have "idx c mod LEVEL_SIZE = fst c" "idx c' mod LEVEL_SIZE = fst c'"
    using g by (simp_all add: idx_def in_grid_def)
  moreover have "idx c div LEVEL_SIZE = snd c" "idx c' div LEVEL_SIZE = snd c'"
    using g by (simp_all add: idx_def in_grid_def)
  ultimately show "c = c'" using e by (metis prod.collapse)
qed simp

lemma set_level_cells: "set level_cells = {c. in_grid c}"
  by (auto simp: level_cells_def in_grid_def)

lemma distinct_level_cells: "distinct level_cells"
  unfolding level_cells_def
  by (rule distinct_concat) (auto simp: distinct_map inj_on_def)

lemma length_level_cells: "length level_cells = LEVEL_SIZE * LEVEL_SIZE"
  by (simp add: level_cells_def length_concat comp_def sum_list_triv)


lemma TODO_neq_DONE: "TODO \<noteq> DONE" "DONE \<noteq> TODO"
  by (simp_all add: TODO_def DONE_def)

lemma idx_eq: "in_grid c \<Longrightarrow> a < LEVEL_SIZE \<Longrightarrow> b < LEVEL_SIZE \<Longrightarrow>
    (idx c = a + b * LEVEL_SIZE) = (c = (a, b))"
  using idx_inj [of c "(a, b)"] by (simp add: in_grid_def idx_def)

lemma length_mark_todo: "length (mark_todo j td) = length td"
  by (simp add: mark_todo_def)

lemma mark_todo_nth:
  "k < length td \<Longrightarrow> mark_todo j td ! k = (if k = j \<and> td ! j \<noteq> DONE then TODO else td ! k)"
  by (simp add: mark_todo_def nth_list_update)

lemma length_add_neighbours: "length (add_neighbours x y td) = length td"
  by (simp add: add_neighbours_def Let_def length_mark_todo)

lemma component_in_grid: "c \<in> component lvl msk target s \<Longrightarrow> in_grid c"
  by (induction rule: component.induct) auto

lemma component_matches: "c \<in> component lvl msk target s \<Longrightarrow> matches lvl msk target c"
  by (induction rule: component.induct) auto

lemma mark_step:
  assumes "k < length t" "t ! k = (if P \<and> v \<noteq> DONE then TODO else v)" "g \<Longrightarrow> (k = j) = Q"
  shows "(if g then mark_todo j t else t) ! k = (if (P \<or> (g \<and> Q)) \<and> v \<noteq> DONE then TODO else v)"
  using assms by (auto simp: mark_todo_nth TODO_neq_DONE)

lemma add_neighbours_nth:
  assumes "in_grid (x, y)" "in_grid c" "length td = LEVEL_SIZE * LEVEL_SIZE"
  shows "add_neighbours x y td ! idx c =
    (if adjacent (x, y) c \<and> td ! idx c \<noteq> DONE then TODO else td ! idx c)"
proof -
  obtain cx cy where c: "c = (cx, cy)" by (cases c)
  have k: "idx c < length td" using assms idx_less by simp
  have b: "x < LEVEL_SIZE" "y < LEVEL_SIZE" "cx < LEVEL_SIZE" "cy < LEVEL_SIZE"
    using assms c by (simp_all add: in_grid_def)
  have e: "\<And>a b. a < LEVEL_SIZE \<Longrightarrow> b < LEVEL_SIZE \<Longrightarrow>
      (idx c = a + b * LEVEL_SIZE) = (cx = a \<and> cy = b)"
    using idx_eq [OF assms(2)] c by simp
  define v where "v = td ! idx c"
  define td1 where "td1 = (if 0 < x then mark_todo ((x - 1) + y * LEVEL_SIZE) td else td)"
  define td2 where "td2 = (if x < LEVEL_SIZE - 1 then mark_todo ((x + 1) + y * LEVEL_SIZE) td1 else td1)"
  define td3 where "td3 = (if 0 < y then mark_todo (x + (y - 1) * LEVEL_SIZE) td2 else td2)"
  define td4 where "td4 = (if y < LEVEL_SIZE - 1 then mark_todo (x + (y + 1) * LEVEL_SIZE) td3 else td3)"
  have l: "idx c < length td1" "idx c < length td2" "idx c < length td3"
    using k by (simp_all add: td1_def td2_def td3_def length_mark_todo)
  have e1: "0 < x \<Longrightarrow> (idx c = (x - 1) + y * LEVEL_SIZE) = (cx = x - 1 \<and> cy = y)"
    using b by (intro e) simp_all
  have e2: "x < LEVEL_SIZE - 1 \<Longrightarrow> (idx c = (x + 1) + y * LEVEL_SIZE) = (cx = x + 1 \<and> cy = y)"
    using b by (intro e) simp_all
  have e3: "0 < y \<Longrightarrow> (idx c = x + (y - 1) * LEVEL_SIZE) = (cx = x \<and> cy = y - 1)"
    using b by (intro e) simp_all
  have e4: "y < LEVEL_SIZE - 1 \<Longrightarrow> (idx c = x + (y + 1) * LEVEL_SIZE) = (cx = x \<and> cy = y + 1)"
    using b by (intro e) simp_all
  have s0: "td ! idx c = (if False \<and> v \<noteq> DONE then TODO else v)" by (simp add: v_def)
  have s1: "td1 ! idx c = (if (False \<or> (0 < x \<and> (cx = x - 1 \<and> cy = y))) \<and> v \<noteq> DONE then TODO else v)"
    unfolding td1_def by (rule mark_step [OF k s0]) (rule e1)
  have s2: "td2 ! idx c = (if ((False \<or> (0 < x \<and> (cx = x - 1 \<and> cy = y))) \<or>
      (x < LEVEL_SIZE - 1 \<and> (cx = x + 1 \<and> cy = y))) \<and> v \<noteq> DONE then TODO else v)"
    unfolding td2_def by (rule mark_step [OF l(1) s1]) (rule e2)
  have s3: "td3 ! idx c = (if (((False \<or> (0 < x \<and> (cx = x - 1 \<and> cy = y))) \<or>
      (x < LEVEL_SIZE - 1 \<and> (cx = x + 1 \<and> cy = y))) \<or> (0 < y \<and> (cx = x \<and> cy = y - 1))) \<and>
      v \<noteq> DONE then TODO else v)"
    unfolding td3_def by (rule mark_step [OF l(2) s2]) (rule e3)
  have s4: "td4 ! idx c = (if ((((False \<or> (0 < x \<and> (cx = x - 1 \<and> cy = y))) \<or>
      (x < LEVEL_SIZE - 1 \<and> (cx = x + 1 \<and> cy = y))) \<or> (0 < y \<and> (cx = x \<and> cy = y - 1))) \<or>
      (y < LEVEL_SIZE - 1 \<and> (cx = x \<and> cy = y + 1))) \<and> v \<noteq> DONE then TODO else v)"
    unfolding td4_def by (rule mark_step [OF l(3) s3]) (rule e4)
  have adj: "adjacent (x, y) c =
     ((((False \<or> 0 < x \<and> cx = x - 1 \<and> cy = y) \<or> x < LEVEL_SIZE - 1 \<and> cx = x + 1 \<and> cy = y) \<or>
       0 < y \<and> cx = x \<and> cy = y - 1) \<or> y < LEVEL_SIZE - 1 \<and> cx = x \<and> cy = y + 1)"
    using b unfolding adjacent_def c by auto
  have "add_neighbours x y td = td4"
    unfolding add_neighbours_def Let_def td1_def td2_def td3_def td4_def by (rule refl)
  then show ?thesis using s4 unfolding adj v_def by simp
qed

lemma flood_visit_observer:
  assumes "observer func"
  shows "flood_visit msk target func x y st =
    (if matches (level st) msk target (x, y) then
       (False, st\<lparr>data := visit_data func (level st) (data st) (x, y),
                   todo := add_neighbours x y ((todo st)[idx (x, y) := DONE]),
                   steps_taken := steps_taken st + 1\<rparr>)
     else (False, st))"
proof -
  have f: "\<And>t d. func t x y d = (False, t, snd (snd (func t x y d)))"
    using assms unfolding observer_def by (metis prod.collapse)
  show ?thesis
    unfolding flood_visit_def Let_def matches_def visit_data_def idx_def fst_conv snd_conv
    by (subst f) simp
qed

lemma todo_inv_visit:
  assumes inv: "todo_inv lvl msk target s td vs"
    and c: "in_grid c" "td ! idx c = TODO" "matches lvl msk target c"
  shows "todo_inv lvl msk target s (add_neighbours (fst c) (snd c) (td[idx c := DONE])) (vs @ [c])"
proof -
  let ?td1 = "td[idx c := DONE]"
  let ?td' = "add_neighbours (fst c) (snd c) ?td1"
  have sg: "in_grid s" using inv unfolding todo_inv_def by blast
  have len: "length td = LEVEL_SIZE * LEVEL_SIZE" and dist: "distinct vs"
    and sub: "set vs \<subseteq> component lvl msk target s"
    and dn: "\<And>c. in_grid c \<Longrightarrow> (td ! idx c = DONE) = (c \<in> set vs)"
    and nb: "\<And>c c'. c \<in> set vs \<Longrightarrow> in_grid c' \<Longrightarrow> adjacent c c' \<Longrightarrow>
        td ! idx c' = TODO \<or> td ! idx c' = DONE"
    and td: "\<And>c. in_grid c \<Longrightarrow> td ! idx c = TODO \<Longrightarrow> matches lvl msk target c \<Longrightarrow>
        c \<in> component lvl msk target s"
    and st: "td ! idx s = TODO \<or> td ! idx s = DONE"
    using inv unfolding todo_inv_def by blast+
  have len1: "length ?td1 = LEVEL_SIZE * LEVEL_SIZE" using len by simp
  have cc: "in_grid (fst c, snd c)" using c(1) by simp
  have n1: "\<And>c'. in_grid c' \<Longrightarrow> ?td1 ! idx c' = (if c' = c then DONE else td ! idx c')"
    using idx_inj [OF c(1)] idx_less [OF c(1)] len by (auto simp add: nth_list_update)
  have n: "\<And>c'. in_grid c' \<Longrightarrow> ?td' ! idx c' =
      (if c' = c then DONE else if adjacent c c' \<and> td ! idx c' \<noteq> DONE then TODO else td ! idx c')"
  proof -
    fix c' assume g: "in_grid c'"
    have "?td' ! idx c' =
        (if adjacent c c' \<and> ?td1 ! idx c' \<noteq> DONE then TODO else ?td1 ! idx c')"
      using add_neighbours_nth [OF cc g len1] by simp
    then show "?td' ! idx c' =
      (if c' = c then DONE else if adjacent c c' \<and> td ! idx c' \<noteq> DONE then TODO else td ! idx c')"
      unfolding n1 [OF g] by simp
  qed
  have cnot: "c \<notin> set vs" using dn [OF c(1)] c(2) TODO_neq_DONE by simp
  have ccomp: "c \<in> component lvl msk target s" using td c by blast
  have "length ?td' = LEVEL_SIZE * LEVEL_SIZE" using len1 by (simp add: length_add_neighbours)
  moreover have "distinct (vs @ [c])" using dist cnot by simp
  moreover have "set (vs @ [c]) \<subseteq> component lvl msk target s" using sub ccomp by simp
  moreover have "\<forall>c'. in_grid c' \<longrightarrow> (?td' ! idx c' = DONE) = (c' \<in> set (vs @ [c]))"
    using n dn TODO_neq_DONE by auto
  moreover have "\<forall>a c'. a \<in> set (vs @ [c]) \<and> in_grid c' \<and> adjacent a c' \<longrightarrow>
        ?td' ! idx c' = TODO \<or> ?td' ! idx c' = DONE"
  proof (intro allI impI)
    fix a c' assume h: "a \<in> set (vs @ [c]) \<and> in_grid c' \<and> adjacent a c'"
    then have g: "in_grid c'" by blast
    show "?td' ! idx c' = TODO \<or> ?td' ! idx c' = DONE"
    proof (cases "a = c")
      case True
      then show ?thesis using n [OF g] h by auto
    next
      case False
      then have "td ! idx c' = TODO \<or> td ! idx c' = DONE" using nb [of a c'] h by auto
      then show ?thesis using n [OF g] by auto
    qed
  qed
  moreover have "\<forall>c'. in_grid c' \<and> ?td' ! idx c' = TODO \<and> matches lvl msk target c' \<longrightarrow>
        c' \<in> component lvl msk target s"
  proof (intro allI impI)
    fix c' assume a: "in_grid c' \<and> ?td' ! idx c' = TODO \<and> matches lvl msk target c'"
    show "c' \<in> component lvl msk target s"
    proof (cases "adjacent c c'")
      case True
      then show ?thesis using component.step [OF ccomp _ True] a by blast
    next
      case False
      then have "td ! idx c' = TODO" using a n [of c'] TODO_neq_DONE by (auto split: if_splits)
      then show ?thesis using td a by blast
    qed
  qed
  moreover have "?td' ! idx s = TODO \<or> ?td' ! idx s = DONE"
    using n [OF sg] st by auto
  ultimately show ?thesis using sg unfolding todo_inv_def by blast
qed

lemma flood_visit_no_match:
  "\<not> matches (level st) msk target (x, y) \<Longrightarrow> flood_visit msk target func x y st = (False, st)"
  by (simp add: flood_visit_def matches_def idx_def)

lemma flood_cells_not_cleared:
  "flood_cells msk target func cs False st = (stop, cl, st') \<Longrightarrow> \<not> cl"
  by (induction cs arbitrary: st) (auto split: if_splits prod.splits)

lemma flood_cells_cleared:
  "flood_cells msk target func cs True st = (stop, True, st') \<Longrightarrow>
    st' = st \<and> (\<forall>c \<in> set cs. todo st ! idx c \<noteq> TODO)"
proof (induction cs)
  case Nil
  then show ?case by simp
next
  case (Cons c cs)
  show ?case
  proof (cases "todo st ! idx c = TODO")
    case True
    obtain stop1 st1 where v: "flood_visit msk target func (fst c) (snd c) st = (stop1, st1)"
      by (cases "flood_visit msk target func (fst c) (snd c) st")
    show ?thesis
    proof (cases stop1)
      case True
      then show ?thesis using Cons.prems \<open>todo st ! idx c = TODO\<close> v by (simp add: idx_def)
    next
      case False
      then have "flood_cells msk target func cs False st1 = (stop, True, st')"
        using Cons.prems \<open>todo st ! idx c = TODO\<close> v by (simp add: idx_def)
      then show ?thesis using flood_cells_not_cleared by blast
    qed
  next
    case False
    then show ?thesis using Cons by (simp add: idx_def)
  qed
qed

lemma flood_cells_idle:
  assumes "\<not> pending (level st) msk target (todo st)" "\<forall>c \<in> set cs. in_grid c"
  shows "\<exists>cl'. flood_cells msk target func cs cl st = (False, cl', st)"
  using assms(2)
proof (induction cs arbitrary: cl)
  case Nil
  then show ?case by simp
next
  case (Cons c cs)
  have g: "in_grid c" using Cons.prems by simp
  show ?case
  proof (cases "todo st ! idx c = TODO")
    case True
    then have "\<not> matches (level st) msk target (fst c, snd c)"
      using assms(1) g unfolding pending_def prod.collapse by blast
    then have "flood_visit msk target func (fst c) (snd c) st = (False, st)"
      by (rule flood_visit_no_match)
    then show ?thesis using True Cons by (simp add: idx_def)
  next
    case False
    then show ?thesis using Cons by (simp add: idx_def)
  qed
qed

lemma flood_cells_inv:
  assumes "observer func" "\<forall>c \<in> set cs. in_grid c" "flood_inv lvl msk target s func d0 st vs"
  shows "\<exists>cl' st' ws. flood_cells msk target func cs cl st = (False, cl', st') \<and>
      flood_inv lvl msk target s func d0 st' (vs @ ws) \<and>
      (\<forall>c. in_grid c \<and> todo st ! idx c = TODO \<longrightarrow> todo st' ! idx c = TODO \<or> c \<in> set (vs @ ws)) \<and>
      (\<forall>c \<in> set cs. todo st ! idx c = TODO \<and> matches lvl msk target c \<longrightarrow> c \<in> set (vs @ ws))"
  using assms(2,3)
proof (induction cs arbitrary: cl st vs)
  case Nil
  then show ?case by (intro exI [of _ cl] exI [of _ st] exI [of _ "[]"]) simp
next
  case (Cons c cs)
  have g: "in_grid c" and gs: "\<forall>c \<in> set cs. in_grid c" using Cons.prems by simp_all
  have lv: "level st = lvl" using Cons.prems(2) unfolding flood_inv_def by blast
  show ?case
  proof (cases "todo st ! idx c = TODO \<and> matches lvl msk target c")
    case True
    define st1 where "st1 = st\<lparr>data := visit_data func (level st) (data st) (fst c, snd c),
                   todo := add_neighbours (fst c) (snd c) ((todo st)[idx (fst c, snd c) := DONE]),
                   steps_taken := steps_taken st + 1\<rparr>"
    have v: "flood_visit msk target func (fst c) (snd c) st = (False, st1)"
      using True lv by (simp add: flood_visit_observer [OF assms(1)] st1_def)
    have ti: "todo_inv lvl msk target s (todo st) vs"
      using Cons.prems(2) unfolding flood_inv_def by blast
    have ti1: "todo_inv lvl msk target s (todo st1) (vs @ [c])"
      using todo_inv_visit [OF ti g] True by (simp add: st1_def)
    have inv1: "flood_inv lvl msk target s func d0 st1 (vs @ [c])"
      using Cons.prems(2) ti1 unfolding flood_inv_def by (simp add: st1_def)
    have keep1: "\<And>c'. in_grid c' \<Longrightarrow> todo st ! idx c' = TODO \<Longrightarrow>
        todo st1 ! idx c' = TODO \<or> c' = c"
    proof -
      fix c' assume g': "in_grid c'" and t: "todo st ! idx c' = TODO"
      have len: "length ((todo st)[idx c := DONE]) = LEVEL_SIZE * LEVEL_SIZE"
        using ti unfolding todo_inv_def by simp
      have gc: "in_grid (fst c, snd c)" using g by simp
      show "todo st1 ! idx c' = TODO \<or> c' = c"
      proof (cases "c' = c")
        case False
        then have "idx c' \<noteq> idx c" using idx_inj [OF g' g] by simp
        then have "(todo st)[idx c := DONE] ! idx c' = TODO" using t by simp
        then show ?thesis using add_neighbours_nth [OF gc g' len] by (simp add: st1_def)
      qed simp
    qed
    obtain cl' st' ws where r: "flood_cells msk target func cs False st1 = (False, cl', st')"
      and i: "flood_inv lvl msk target s func d0 st' ((vs @ [c]) @ ws)"
      and k: "\<forall>a. in_grid a \<and> todo st1 ! idx a = TODO \<longrightarrow>
                todo st' ! idx a = TODO \<or> a \<in> set ((vs @ [c]) @ ws)"
      and m: "\<forall>a \<in> set cs. todo st1 ! idx a = TODO \<and> matches lvl msk target a \<longrightarrow>
                a \<in> set ((vs @ [c]) @ ws)"
      using Cons.IH [OF gs inv1, of False] by blast
    have "flood_cells msk target func (c # cs) cl st = (False, cl', st')"
      using True v r by (simp add: idx_def)
    moreover have "flood_inv lvl msk target s func d0 st' (vs @ (c # ws))" using i by simp
    moreover have "\<forall>c'. in_grid c' \<and> todo st ! idx c' = TODO \<longrightarrow>
        todo st' ! idx c' = TODO \<or> c' \<in> set (vs @ (c # ws))"
      using keep1 k by fastforce
    moreover have "\<forall>c' \<in> set (c # cs). todo st ! idx c' = TODO \<and> matches lvl msk target c' \<longrightarrow>
        c' \<in> set (vs @ (c # ws))"
      using keep1 m gs by fastforce
    ultimately show ?thesis by blast
  next
    case False
    have "\<exists>b. flood_cells msk target func (c # cs) cl st = flood_cells msk target func cs b st"
    proof (cases "todo st ! idx c = TODO")
      case True
      then have "\<not> matches (level st) msk target (fst c, snd c)" using False lv by simp
      then have "flood_visit msk target func (fst c) (snd c) st = (False, st)"
        by (rule flood_visit_no_match)
      then show ?thesis using True by (auto simp: idx_def)
    next
      case False
      then show ?thesis by (auto simp: idx_def)
    qed
    then obtain b where e: "flood_cells msk target func (c # cs) cl st =
        flood_cells msk target func cs b st" ..
    obtain cl' st' ws where r: "flood_cells msk target func cs b st = (False, cl', st')"
      and i: "flood_inv lvl msk target s func d0 st' (vs @ ws)"
      and k: "\<forall>c. in_grid c \<and> todo st ! idx c = TODO \<longrightarrow>
                todo st' ! idx c = TODO \<or> c \<in> set (vs @ ws)"
      and m: "\<forall>c \<in> set cs. todo st ! idx c = TODO \<and> matches lvl msk target c \<longrightarrow>
                c \<in> set (vs @ ws)"
      using Cons.IH [OF gs Cons.prems(2), of b] by blast
    have "\<forall>c' \<in> set (c # cs). todo st ! idx c' = TODO \<and> matches lvl msk target c' \<longrightarrow>
        c' \<in> set (vs @ ws)"
      using m False by auto
    then show ?thesis using e r i k by metis
  qed
qed

lemma in_grid_level_cells: "\<forall>c \<in> set level_cells. in_grid c"
  by (simp add: set_level_cells)

lemma flood_loop_idle:
  assumes "\<not> pending (level st) msk target (todo st)"
  shows "flood_loop msk target func n st = st"
proof (induction n)
  case 0
  then show ?case by simp
next
  case (Suc n)
  obtain cl' where "flood_cells msk target func level_cells True st = (False, cl', st)"
    using flood_cells_idle [OF assms in_grid_level_cells] by blast
  then show ?case using Suc by simp
qed

lemma flood_loop_inv:
  assumes "observer func" "flood_inv lvl msk target s func d0 st vs"
  shows "\<exists>ws. flood_inv lvl msk target s func d0 (flood_loop msk target func n st) (vs @ ws) \<and>
      (\<not> pending lvl msk target (todo (flood_loop msk target func n st)) \<or> n \<le> length ws)"
  using assms(2)
proof (induction n arbitrary: st vs)
  case 0
  then show ?case by (intro exI [of _ "[]"]) simp
next
  case (Suc n)
  have lv: "level st = lvl" using Suc.prems unfolding flood_inv_def by blast
  obtain cl1 st1 ws1 where r: "flood_cells msk target func level_cells True st = (False, cl1, st1)"
    and i: "flood_inv lvl msk target s func d0 st1 (vs @ ws1)"
    and m: "\<forall>a \<in> set level_cells. todo st ! idx a = TODO \<and> matches lvl msk target a \<longrightarrow>
              a \<in> set (vs @ ws1)"
    using flood_cells_inv [OF assms(1) in_grid_level_cells Suc.prems, of True] by blast
  show ?case
  proof (cases "pending lvl msk target (todo st)")
    case False
    then have "flood_loop msk target func (Suc n) st = st"
      using flood_loop_idle [of st msk target] lv by blast
    then show ?thesis using False Suc.prems by (intro exI [of _ "[]"]) simp
  next
    case True
    then obtain a where a: "in_grid a" "todo st ! idx a = TODO" "matches lvl msk target a"
      unfolding pending_def by blast
    have "a \<notin> set vs"
      using Suc.prems a TODO_neq_DONE unfolding flood_inv_def todo_inv_def by metis
    moreover have "a \<in> set (vs @ ws1)" using m a unfolding set_level_cells by blast
    ultimately have "ws1 \<noteq> []" by auto
    then have l1: "1 \<le> length ws1" by (cases ws1) simp_all
    have "\<not> cl1"
    proof
      assume cl1
      then have "\<forall>c \<in> set level_cells. todo st ! idx c \<noteq> TODO"
        using flood_cells_cleared [of msk target func level_cells st False st1] r by simp
      then show False using a unfolding set_level_cells by blast
    qed
    then have e: "flood_loop msk target func (Suc n) st = flood_loop msk target func n st1"
      using r by simp
    obtain ws2 where i2: "flood_inv lvl msk target s func d0 (flood_loop msk target func n st1)
          ((vs @ ws1) @ ws2)"
      and p2: "\<not> pending lvl msk target (todo (flood_loop msk target func n st1)) \<or> n \<le> length ws2"
      using Suc.IH [OF i] by blast
    show ?thesis unfolding e using i2 p2 l1 by (intro exI [of _ "ws1 @ ws2"]) auto
  qed
qed

lemma flood_inv_complete:
  assumes inv: "todo_inv lvl msk target s td vs"
    and fin: "\<not> pending lvl msk target td \<or> LEVEL_SIZE * LEVEL_SIZE \<le> length vs"
  shows "set vs = component lvl msk target s"
proof -
  have sub: "set vs \<subseteq> component lvl msk target s" and dist: "distinct vs"
    and dn: "\<And>c. in_grid c \<Longrightarrow> (td ! idx c = DONE) = (c \<in> set vs)"
    and nb: "\<And>c c'. c \<in> set vs \<Longrightarrow> in_grid c' \<Longrightarrow> adjacent c c' \<Longrightarrow>
        td ! idx c' = TODO \<or> td ! idx c' = DONE"
    and st: "td ! idx s = TODO \<or> td ! idx s = DONE"
    using inv unfolding todo_inv_def by blast+
  have np: "\<not> pending lvl msk target td"
  proof (cases "LEVEL_SIZE * LEVEL_SIZE \<le> length vs")
    case True
    have s: "set vs \<subseteq> set level_cells"
      using sub component_in_grid unfolding set_level_cells by blast
    have "card (set level_cells) = LEVEL_SIZE * LEVEL_SIZE"
      using distinct_card [OF distinct_level_cells] length_level_cells by simp
    moreover have "card (set vs) = length vs" using dist by (rule distinct_card)
    ultimately have "card (set level_cells) \<le> card (set vs)" using True by simp
    then have "set vs = set level_cells" using s by (simp add: card_seteq)
    then have "\<And>c. in_grid c \<Longrightarrow> td ! idx c = DONE" using dn unfolding set_level_cells by blast
    then show ?thesis unfolding pending_def using TODO_neq_DONE by metis
  next
    case False
    then show ?thesis using fin by blast
  qed
  have "c \<in> set vs" if "c \<in> component lvl msk target s" for c
    using that
  proof (induction rule: component.induct)
    case start
    then show ?case using st np dn unfolding pending_def by blast
  next
    case (step c c')
    then show ?case using nb [of c c'] np dn [of c'] unfolding pending_def by blast
  qed
  then show ?thesis using sub by blast
qed

lemma todo_inv_init:
  assumes "in_grid s"
  shows "todo_inv lvl msk target s ((replicate (LEVEL_SIZE * LEVEL_SIZE) 0)[idx s := TODO]) []"
proof -
  have n: "\<And>c. in_grid c \<Longrightarrow>
      (replicate (LEVEL_SIZE * LEVEL_SIZE) 0)[idx s := TODO] ! idx c = (if c = s then TODO else 0)"
    using idx_inj [OF assms] idx_less by (auto simp: nth_list_update)
  have z: "(0 :: u8) \<noteq> DONE" "(0 :: u8) \<noteq> TODO" by (simp_all add: DONE_def TODO_def)
  let ?td = "(replicate (LEVEL_SIZE * LEVEL_SIZE) 0)[idx s := TODO]"
  have "length ?td = LEVEL_SIZE * LEVEL_SIZE" by simp
  moreover have "\<forall>c. in_grid c \<longrightarrow> (?td ! idx c = DONE) = (c \<in> set [])"
    using n z TODO_neq_DONE by simp
  moreover have "\<forall>c. in_grid c \<and> ?td ! idx c = TODO \<and> matches lvl msk target c \<longrightarrow>
        c \<in> component lvl msk target s"
    using n z component.start [of s lvl msk target] by (metis (full_types))
  moreover have "?td ! idx s = TODO \<or> ?td ! idx s = DONE" using n [OF assms] by simp
  ultimately show ?thesis unfolding todo_inv_def using assms by simp
qed

lemma flood_observer:
  assumes "observer func" "in_grid (sx, sy)"
  shows "\<exists>vs. distinct vs \<and> set vs = component lvl msk target (sx, sy) \<and>
    flood lvl sx sy msk target func d = (length vs, lvl, foldl (visit_data func lvl) d vs)"
proof -
  define st0 where "st0 = \<lparr>level = lvl,
      todo = (replicate (LEVEL_SIZE * LEVEL_SIZE) 0)[sx + sy * LEVEL_SIZE := TODO],
      steps_taken = 0, data = d\<rparr>"
  define st where "st = flood_loop msk target func (LEVEL_SIZE * LEVEL_SIZE) st0"
  have "flood_inv lvl msk target (sx, sy) func d st0 []"
    using todo_inv_init [OF assms(2)] unfolding flood_inv_def st0_def by (simp add: idx_def)
  then obtain ws where i: "flood_inv lvl msk target (sx, sy) func d st ([] @ ws)"
    and p: "\<not> pending lvl msk target (todo st) \<or> LEVEL_SIZE * LEVEL_SIZE \<le> length ws"
    using flood_loop_inv [OF assms(1), of lvl msk target "(sx, sy)" d st0 "[]" "LEVEL_SIZE * LEVEL_SIZE"]
    unfolding st_def by blast
  have ti: "todo_inv lvl msk target (sx, sy) (todo st) ws" using i unfolding flood_inv_def by simp
  have "set ws = component lvl msk target (sx, sy)" by (rule flood_inv_complete [OF ti p])
  moreover have "distinct ws" using ti unfolding todo_inv_def by blast
  moreover have "flood lvl sx sy msk target func d = (length ws, lvl, foldl (visit_data func lvl) d ws)"
    using i unfolding flood_def Let_def st0_def [symmetric] st_def [symmetric] flood_inv_def by simp
  ultimately show ?thesis by blast
qed

lemma component_no_match:
  "\<not> matches lvl msk target s \<Longrightarrow> component lvl msk target s = {}"
proof -
  have "matches lvl msk target s" if "c \<in> component lvl msk target s" for c
    using that by (induction rule: component.induct) auto
  then show "\<not> matches lvl msk target s \<Longrightarrow> component lvl msk target s = {}" by blast
qed

lemma observer_flood_record_tiles: "observer flood_record_tiles"
  by (simp add: observer_def flood_record_tiles_def)

lemma observer_record_cells: "observer record_cells"
  by (simp add: observer_def record_cells_def)

lemma foldl_record_cells: "foldl (visit_data record_cells lvl) d vs = d @ vs"
  by (induction vs arbitrary: d) (simp_all add: visit_data_def record_cells_def)

section \<open>The player and what the flood records\<close>

lemma bit_BIT: "bit (BIT n) m \<longleftrightarrow> m = n \<and> n < 16"
  by (auto simp: BIT_def bit_simps)

lemma and_BIT_eq: "n < 16 \<Longrightarrow> (x AND BIT n = BIT n) = bit x n" for x :: Tile
proof
  assume n: "n < 16" and e: "x AND BIT n = BIT n"
  have "bit (x AND BIT n) n" unfolding e using n by (simp add: bit_BIT)
  then show "bit x n" by (simp add: bit_simps)
next
  assume "n < 16" "bit x n"
  then show "x AND BIT n = BIT n"
    by (intro bit_word_eqI) (auto simp: bit_simps bit_BIT)
qed

lemma and_BIT_0: "n < 16 \<Longrightarrow> (x AND BIT n = 0) = (\<not> bit x n)" for x :: Tile
proof
  assume n: "n < 16" and e: "x AND BIT n = 0"
  have "\<not> bit (x AND BIT n) n" unfolding e by simp
  then show "\<not> bit x n" using n by (simp add: bit_simps bit_BIT)
next
  assume "n < 16" "\<not> bit x n"
  then show "x AND BIT n = 0"
    by (intro bit_word_eqI) (auto simp: bit_simps bit_BIT)
qed

lemma and_or_eq: "(x AND (a OR b) = a OR b) = (x AND a = a \<and> x AND b = b)" for x :: Tile
proof
  assume e: "x AND (a OR b) = a OR b"
  have "\<And>n. bit (x AND (a OR b)) n = bit (a OR b) n" unfolding e by simp
  then have "\<And>n. bit a n \<or> bit b n \<Longrightarrow> bit x n" by (auto simp: bit_simps)
  then show "x AND a = a \<and> x AND b = b"
    by (intro conjI bit_word_eqI) (auto simp: bit_simps)
next
  assume e: "x AND a = a \<and> x AND b = b"
  have "\<And>n. bit (x AND a) n = bit a n" "\<And>n. bit (x AND b) n = bit b n" using e by simp_all
  then have "\<And>n. bit a n \<or> bit b n \<Longrightarrow> bit x n" by (auto simp: bit_simps)
  then show "x AND (a OR b) = a OR b"
    by (intro bit_word_eqI) (auto simp: bit_simps)
qed

lemma and_key_exit: "(x AND (BIT KEY OR BIT EXIT) = BIT KEY OR BIT EXIT) = (bit x KEY \<and> bit x EXIT)"
  for x :: Tile
  by (simp add: and_or_eq and_BIT_eq KEY_def EXIT_def)

lemma find_player_cells_None:
  "find_player_cells lvl cs = None \<longleftrightarrow> (\<forall>c \<in> set cs. lvl ! idx c AND BIT PLAYER = 0)"
  by (induction cs) (auto simp: idx_def)

lemma find_player_cells_Some:
  "find_player_cells lvl cs = Some p \<Longrightarrow> p \<in> set cs \<and> lvl ! idx p AND BIT PLAYER \<noteq> 0"
  by (induction cs) (auto simp: idx_def split: if_splits)

lemma find_player_in_grid: "find_player lvl = Some p \<Longrightarrow> in_grid p"
  using find_player_cells_Some [of lvl level_cells p] by (simp add: find_player_def set_level_cells)

lemma foldl_record_tiles_bit:
  "bit (foldl (visit_data flood_record_tiles lvl) d vs) n \<longleftrightarrow>
     bit d n \<or> (\<exists>c \<in> set vs. bit (lvl ! idx c) n)"
  by (induction vs arbitrary: d) (auto simp: visit_data_def flood_record_tiles_def bit_simps)

lemma bit_or_tiles: "bit (or_tiles lvl vs) n \<longleftrightarrow> (\<exists>c \<in> set vs. bit (lvl ! idx c) n)"
  unfolding or_tiles_def by (induction vs) (auto simp: bit_simps)

lemma map_idx_rows:
  "concat (map (\<lambda>y. map (\<lambda>x. idx (x, y)) [0..<LEVEL_SIZE]) [0..<n]) = [0..<n * LEVEL_SIZE]"
proof (induction n)
  case 0
  then show ?case by simp
next
  case (Suc n)
  have "map (\<lambda>x. idx (x, n)) [0..<LEVEL_SIZE] = [n * LEVEL_SIZE..<n * LEVEL_SIZE + LEVEL_SIZE]"
    by (simp add: idx_def map_add_upt add.commute)
  moreover have "[0..<n * LEVEL_SIZE] @ [n * LEVEL_SIZE..<n * LEVEL_SIZE + LEVEL_SIZE] =
      [0..<n * LEVEL_SIZE + LEVEL_SIZE]"
    by (rule upt_add_eq_append [symmetric]) simp
  ultimately show ?case using Suc by (simp add: add.commute)
qed

lemma map_idx_level_cells: "map idx level_cells = [0..<LEVEL_SIZE * LEVEL_SIZE]"
  using map_idx_rows [of LEVEL_SIZE] by (simp add: level_cells_def map_concat comp_def)

lemma sorted_level_cells: "sorted_wrt (\<lambda>a b. idx a < idx b) level_cells"
proof -
  have "sorted_wrt (<) (map idx level_cells)" unfolding map_idx_level_cells by simp
  then show ?thesis by (simp add: sorted_wrt_map)
qed

lemma find_player_cells_first:
  assumes "sorted_wrt (\<lambda>a b. idx a < idx b) cs" "find_player_cells lvl cs = Some p"
  shows "\<forall>c \<in> set cs. idx c < idx p \<longrightarrow> lvl ! idx c AND BIT PLAYER = 0"
  using assms
proof (induction cs)
  case Nil
  then show ?case by simp
next
  case (Cons a cs)
  show ?case
  proof (cases "lvl ! idx a AND BIT PLAYER \<noteq> 0")
    case True
    then have "p = a" using Cons.prems(2) by (simp add: idx_def)
    then show ?thesis using Cons.prems(1) by auto
  next
    case False
    then have "find_player_cells lvl cs = Some p" using Cons.prems(2) by (simp add: idx_def)
    then show ?thesis using Cons False by auto
  qed
qed

lemma find_player_first: "find_player lvl = Some p \<longleftrightarrow> first_player lvl p"
proof
  assume f: "find_player lvl = Some p"
  have "p \<in> set level_cells \<and> lvl ! idx p AND BIT PLAYER \<noteq> 0"
    using f find_player_cells_Some unfolding find_player_def by blast
  moreover have "\<forall>c \<in> set level_cells. idx c < idx p \<longrightarrow> lvl ! idx c AND BIT PLAYER = 0"
    using find_player_cells_first [OF sorted_level_cells] f unfolding find_player_def by blast
  ultimately show "first_player lvl p"
    unfolding first_player_def set_level_cells by blast
next
  assume fp: "first_player lvl p"
  then have "\<not> (\<forall>c \<in> set level_cells. lvl ! idx c AND BIT PLAYER = 0)"
    unfolding first_player_def set_level_cells by blast
  then obtain q where q: "find_player lvl = Some q"
    using find_player_cells_None [of lvl level_cells] unfolding find_player_def by fastforce
  have gq: "in_grid q" using q by (rule find_player_in_grid)
  have pq: "lvl ! idx q AND BIT PLAYER \<noteq> 0"
    using q find_player_cells_Some unfolding find_player_def by blast
  have "\<forall>c \<in> set level_cells. idx c < idx q \<longrightarrow> lvl ! idx c AND BIT PLAYER = 0"
    using find_player_cells_first [OF sorted_level_cells] q unfolding find_player_def by blast
  then have "\<not> idx p < idx q" using fp unfolding first_player_def set_level_cells by blast
  moreover have "\<not> idx q < idx p" using fp gq pq unfolding first_player_def by blast
  ultimately have "idx p = idx q" by simp
  then have "p = q" using idx_inj gq fp unfolding first_player_def by blast
  then show "find_player lvl = Some p" using q by simp
qed

lemma level_is_completable_char:
  "level_is_completable lvl =
    (case find_player lvl of
       None \<Rightarrow> (False, lvl)
     | Some p \<Rightarrow>
        ((\<exists>c \<in> component lvl (BIT FLOOR OR BIT WALL OR BIT SPIKES) (BIT FLOOR) p. bit (lvl ! idx c) KEY) \<and>
         (\<exists>c \<in> component lvl (BIT FLOOR OR BIT WALL OR BIT SPIKES) (BIT FLOOR) p. bit (lvl ! idx c) EXIT),
         lvl))"
proof (cases "find_player lvl")
  case None
  then show ?thesis by (simp add: level_is_completable_def)
next
  case (Some p)
  obtain px py where p: "p = (px, py)" by (cases p)
  have g: "in_grid (px, py)" using Some p find_player_in_grid by blast
  obtain vs where vs: "set vs = component lvl (BIT FLOOR OR BIT WALL OR BIT SPIKES) (BIT FLOOR) (px, py)"
    and fl: "flood lvl px py (BIT FLOOR OR BIT WALL OR BIT SPIKES) (BIT FLOOR) flood_record_tiles 0 =
      (length vs, lvl, foldl (visit_data flood_record_tiles lvl) 0 vs)"
    using flood_observer [OF observer_flood_record_tiles g] by blast
  show ?thesis
    unfolding level_is_completable_def Some p option.case prod.case fl and_key_exit
      foldl_record_tiles_bit vs by simp
qed

lemma BIT_and_BIT: "m \<noteq> n \<Longrightarrow> BIT m AND BIT n = 0"
  by (intro bit_word_eqI) (auto simp: bit_simps bit_BIT)


section \<open>Walls that are kept and walls that are taken out\<close>

lemma component_cong:
  assumes "\<And>c. matches lvl msk target c = matches lvl' msk target c"
  shows "component lvl msk target s = component lvl' msk target s"
proof -
  have "c \<in> component lvl2 msk target s"
    if "c \<in> component lvl1 msk target s"
      and "\<And>c. matches lvl1 msk target c = matches lvl2 msk target c" for c lvl1 lvl2
    using that
  proof (induction rule: component.induct)
    case start
    then show ?case using component.start by blast
  next
    case (step c c')
    then show ?case using component.step by blast
  qed
  then show ?thesis using assms by blast
qed

lemma find_player_cells_cong:
  assumes "\<forall>c \<in> set cs. (lvl ! idx c AND BIT PLAYER = 0) = (lvl' ! idx c AND BIT PLAYER = 0)"
  shows "find_player_cells lvl cs = find_player_cells lvl' cs"
  using assms by (induction cs) (auto simp: idx_def)

lemma wall_no_match:
  assumes "bit t WALL"
  shows "t AND (BIT FLOOR OR BIT WALL OR BIT SPIKES) \<noteq> BIT FLOOR AND (BIT FLOOR OR BIT WALL OR BIT SPIKES)"
proof
  assume e: "t AND (BIT FLOOR OR BIT WALL OR BIT SPIKES) = BIT FLOOR AND (BIT FLOOR OR BIT WALL OR BIT SPIKES)"
  have "bit (t AND (BIT FLOOR OR BIT WALL OR BIT SPIKES)) WALL"
    using assms by (simp add: bit_simps bit_BIT WALL_def)
  moreover have "\<not> bit (BIT FLOOR AND (BIT FLOOR OR BIT WALL OR BIT SPIKES)) WALL"
    by (simp add: bit_simps bit_BIT WALL_def FLOOR_def)
  ultimately show False using e by simp
qed

lemma bit_BIT_self: "n < 16 \<Longrightarrow> bit (BIT n) n"
  by (simp add: bit_BIT)

lemma completable_wall_collapse:
  assumes "i < length lvl \<Longrightarrow> bit (lvl ! i) WALL \<and> \<not> bit (lvl ! i) PLAYER"
  shows "fst (level_is_completable (lvl[i := BIT WALL])) = fst (level_is_completable lvl)"
proof (cases "i < length lvl")
  case False
  then have "lvl[i := BIT WALL] = lvl" by (intro list_update_beyond) simp
  then show ?thesis by simp
next
  case True
  let ?M = "BIT FLOOR OR BIT WALL OR BIT SPIKES"
  let ?l = "lvl[i := BIT WALL]"
  have w: "bit (lvl ! i) WALL" and np: "\<not> bit (lvl ! i) PLAYER" using assms True by simp_all
  have n: "\<And>j. ?l ! j = (if j = i then BIT WALL else lvl ! j)"
    using True by (simp add: nth_list_update)
  have m: "matches lvl ?M (BIT FLOOR) c = matches ?l ?M (BIT FLOOR) c" for c
    unfolding matches_def n
    using wall_no_match [OF w] wall_no_match [of "BIT WALL"] by (simp add: bit_BIT WALL_def)
  have comp: "component ?l ?M (BIT FLOOR) p = component lvl ?M (BIT FLOOR) p" for p
    by (rule component_cong [symmetric]) (rule m)
  have "lvl ! i AND BIT PLAYER = 0" using np and_BIT_0 [of PLAYER] by (simp add: PLAYER_def)
  moreover have "BIT WALL AND BIT PLAYER = 0" by (simp add: BIT_and_BIT WALL_def PLAYER_def)
  ultimately have fp: "find_player ?l = find_player lvl"
    unfolding find_player_def by (intro find_player_cells_cong) (simp add: n)
  have t: "?l ! idx c = lvl ! idx c" if "c \<in> component lvl ?M (BIT FLOOR) p" for c p
  proof -
    have "matches lvl ?M (BIT FLOOR) c" using that by (rule component_matches)
    then have "idx c \<noteq> i" using wall_no_match [OF w] unfolding matches_def by auto
    then show ?thesis by (simp add: n)
  qed
  show ?thesis
    unfolding level_is_completable_char fp comp
    using t by (cases "find_player lvl") auto
qed

lemma level_is_completable_pair:
  "level_is_completable lvl = (fst (level_is_completable lvl), lvl)"
  by (simp add: level_is_completable_char split: option.split)

lemma verified_wall_accepted:
  assumes "verified_wall lvl i = (Accepted, lvl')"
  shows "fst (level_is_completable lvl')"
proof -
  let ?l1 = "lvl[i := lvl ! i OR BIT WALL]"
  have np: "lvl ! i AND BIT PLAYER = 0"
    using assms unfolding verified_wall_def by (auto split: if_splits)
  note c = level_is_completable_pair [of ?l1]
  have ok: "fst (level_is_completable ?l1)" and l': "lvl' = ?l1[i := BIT WALL]"
    using assms np unfolding verified_wall_def Let_def by (subst (asm) c, auto split: if_splits)+
  have "bit (?l1 ! i) WALL \<and> \<not> bit (?l1 ! i) PLAYER" if "i < length ?l1"
    using that np and_BIT_0 [of PLAYER "lvl ! i"]
    by (simp add: bit_simps bit_BIT WALL_def PLAYER_def)
  then show ?thesis unfolding l' using completable_wall_collapse [of i ?l1] ok by blast
qed


lemma completable_player_tile:
  assumes "first_player lvl p"
    and "matches lvl (BIT FLOOR OR BIT WALL OR BIT SPIKES) (BIT FLOOR) p"
    and "bit (lvl ! idx p) KEY" "bit (lvl ! idx p) EXIT"
  shows "fst (level_is_completable lvl)"
proof -
  have "find_player lvl = Some p" using assms(1) find_player_first by blast
  moreover have "p \<in> component lvl (BIT FLOOR OR BIT WALL OR BIT SPIKES) (BIT FLOOR) p"
    using assms(1,2) component.start unfolding first_player_def by blast
  ultimately show ?thesis using assms(3,4) by (auto simp: level_is_completable_char)
qed

lemma draws_1_0:
  "random_int_range 1 (int LEVEL_SIZE - 2) (1, 0) = (1, 36028797018980353, 68719476736)"
  "random_int_range 1 (int LEVEL_SIZE - 2) (36028797018980353, 68719476736) =
     (1, 1196337638932513, 1125968760537344)"
  by code_simp+

lemma tile_index_1_1: "tile_index 1 1 = Some 23"
  by (simp add: tile_index_def LEVEL_SIZE_def)

lemma player_tile_bits:
  "bit (BIT FLOOR OR BIT PLAYER OR BIT KEY OR BIT EXIT) n \<longleftrightarrow> n \<in> {FLOOR, PLAYER, KEY, EXIT}"
  by (auto simp: bit_simps bit_BIT FLOOR_def PLAYER_def KEY_def EXIT_def)

lemma open_level_walled_completable:
  assumes "i \<noteq> 115" "\<not> bit t PLAYER"
  shows "fst (level_is_completable (open_level[i := t]))"
proof (rule completable_player_tile [where p = "(5, 5)"])
  let ?l = "open_level[i := t]"
  have i5: "idx (5, 5) = 115" by (simp add: idx_def LEVEL_SIZE_def)
  have n: "\<And>j. j < 484 \<Longrightarrow> ?l ! j =
      (if j = i then t else if j = 115 then BIT FLOOR OR BIT PLAYER OR BIT KEY OR BIT EXIT else BIT FLOOR)"
    by (simp add: open_level_def nth_list_update)
  have p: "?l ! 115 = BIT FLOOR OR BIT PLAYER OR BIT KEY OR BIT EXIT" using assms(1) n [of 115] by simp
  have t0: "t AND BIT PLAYER = 0" using assms(2) and_BIT_0 [of PLAYER t] by (simp add: PLAYER_def)
  have "\<And>c. in_grid c \<Longrightarrow> idx c < 115 \<Longrightarrow> ?l ! idx c AND BIT PLAYER = 0"
    using n t0 by (simp add: BIT_and_BIT FLOOR_def PLAYER_def)
  moreover have "?l ! 115 AND BIT PLAYER \<noteq> 0"
    unfolding p using and_BIT_0 [of PLAYER "BIT FLOOR OR BIT PLAYER OR BIT KEY OR BIT EXIT"]
    by (simp add: player_tile_bits) (simp add: PLAYER_def)
  ultimately show "first_player ?l (5, 5)"
    unfolding first_player_def i5 by (simp add: in_grid_def LEVEL_SIZE_def)
  show "matches ?l (BIT FLOOR OR BIT WALL OR BIT SPIKES) (BIT FLOOR) (5, 5)"
    unfolding matches_def i5 p
    by (intro bit_word_eqI) (auto simp: bit_simps bit_BIT FLOOR_def PLAYER_def KEY_def EXIT_def
        WALL_def SPIKES_def)
  show "bit (?l ! idx (5, 5)) KEY" "bit (?l ! idx (5, 5)) EXIT"
    unfolding i5 p by (simp_all add: player_tile_bits)
qed

lemma open_level_completable: "fst (level_is_completable open_level)"
proof -
  have "open_level ! 0 = BIT FLOOR" by (simp add: open_level_def)
  then have "open_level[0 := BIT FLOOR] = open_level" by (metis list_update_id)
  moreover have "\<not> bit (BIT FLOOR) PLAYER" by (simp add: bit_BIT FLOOR_def PLAYER_def)
  ultimately show ?thesis using open_level_walled_completable [of 0 "BIT FLOOR"] by simp
qed

lemma verified_wall_open_level:
  "verified_wall open_level 23 = (Accepted, open_level[23 := BIT WALL])"
proof -
  have t: "open_level ! 23 = BIT FLOOR" by (simp add: open_level_def)
  have np: "BIT FLOOR AND BIT PLAYER = 0" by (simp add: BIT_and_BIT FLOOR_def PLAYER_def)
  have "\<not> bit (BIT FLOOR OR BIT WALL) PLAYER"
    by (simp add: bit_simps bit_BIT FLOOR_def WALL_def PLAYER_def)
  then have ok: "fst (level_is_completable (open_level[23 := BIT FLOOR OR BIT WALL]))"
    by (intro open_level_walled_completable) simp_all
  have c: "level_is_completable (open_level[23 := BIT FLOOR OR BIT WALL]) =
      (True, open_level[23 := BIT FLOOR OR BIT WALL])"
    using ok level_is_completable_pair [of "open_level[23 := BIT FLOOR OR BIT WALL]"] by simp
  show ?thesis unfolding verified_wall_def t Let_def c using np by simp
qed


lemma or_xor_wall: "(t OR BIT WALL) XOR BIT WALL = t \<longleftrightarrow> \<not> bit t WALL" for t :: Tile
proof
  assume e: "(t OR BIT WALL) XOR BIT WALL = t"
  have "\<not> bit ((t OR BIT WALL) XOR BIT WALL) WALL" by (simp add: bit_simps bit_BIT WALL_def)
  then show "\<not> bit t WALL" unfolding e .
next
  assume "\<not> bit t WALL"
  then show "(t OR BIT WALL) XOR BIT WALL = t"
    by (intro bit_word_eqI) (auto simp: bit_simps bit_BIT)
qed

lemma verified_wall_rejected:
  assumes "verified_wall lvl i = (Rejected, lvl')"
  shows "lvl' = lvl[i := (lvl ! i OR BIT WALL) XOR BIT WALL]"
    and "lvl' = lvl \<longleftrightarrow> (i < length lvl \<longrightarrow> \<not> bit (lvl ! i) WALL)"
proof -
  let ?l1 = "lvl[i := lvl ! i OR BIT WALL]"
  note c = level_is_completable_pair [of ?l1]
  have l': "lvl' = ?l1[i := ?l1 ! i XOR BIT WALL]"
    using assms unfolding verified_wall_def Let_def by (subst (asm) c) (auto split: if_splits)
  show 1: "lvl' = lvl[i := (lvl ! i OR BIT WALL) XOR BIT WALL]"
  proof (cases "i < length lvl")
    case True
    then show ?thesis unfolding l' by simp
  next
    case False
    then show ?thesis unfolding l' by (simp add: list_update_beyond)
  qed
  show "lvl' = lvl \<longleftrightarrow> (i < length lvl \<longrightarrow> \<not> bit (lvl ! i) WALL)"
  proof (cases "i < length lvl")
    case True
    have "lvl[i := (lvl ! i OR BIT WALL) XOR BIT WALL] = lvl \<longleftrightarrow>
        (lvl ! i OR BIT WALL) XOR BIT WALL = lvl ! i"
      using True by (auto simp add: list_update_same_conv)
    then show ?thesis unfolding 1 or_xor_wall using True by simp
  next
    case False
    then show ?thesis unfolding 1 by (simp add: list_update_beyond)
  qed
qed

lemma not_completable_without_player:
  assumes "\<And>j. j < LEVEL_SIZE * LEVEL_SIZE \<Longrightarrow> lvl ! j AND BIT PLAYER = 0"
  shows "level_is_completable lvl = (False, lvl)"
proof -
  have "find_player lvl = None"
    unfolding find_player_def find_player_cells_None set_level_cells
    using assms idx_less by blast
  then show ?thesis by (simp add: level_is_completable_char)
qed

lemma foldl_update_upt:
  "k \<le> length l \<Longrightarrow> foldl (\<lambda>l i. l[i := v]) l [0..<k] = replicate k v @ drop k l"
proof (induction k)
  case 0
  then show ?case by simp
next
  case (Suc k)
  then have k: "k < length l" by simp
  have "(replicate k v @ drop k l)[k := v] = replicate k v @ (drop k l)[0 := v]"
    by (simp add: list_update_append)
  also have "(drop k l)[0 := v] = v # drop (Suc k) l"
    using k by (simp add: Cons_nth_drop_Suc [symmetric])
  finally show ?case using Suc by (simp add: replicate_app_Cons_same)
qed

lemma fill_level_replicate:
  assumes "length lvl = LEVEL_SIZE * LEVEL_SIZE"
  shows "fill_level lvl entity = replicate (LEVEL_SIZE * LEVEL_SIZE) (BIT entity)"
proof -
  have "fill_level lvl entity = foldl (\<lambda>l i. l[i := BIT entity]) lvl (map idx level_cells)"
    unfolding fill_level_def by (simp add: foldl_map)
  then show ?thesis unfolding map_idx_level_cells using foldl_update_upt [of "LEVEL_SIZE * LEVEL_SIZE" lvl] assms
    by simp
qed

lemma observer_count_entities: "observer count_entities"
  by (simp add: observer_def count_entities_def)

lemma preserving_wall_rejected:
  assumes "preserving_wall actual_entity_count garbage lvl i = (Some Rejected, lvl')"
  shows "lvl' = lvl[i := (lvl ! i OR BIT WALL) XOR BIT WALL]"
proof -
  let ?l1 = "lvl[i := lvl ! i OR BIT WALL]"
  have np: "lvl ! i AND BIT PLAYER = 0"
    using assms unfolding preserving_wall_def by (auto split: if_splits)
  obtain px py where p: "find_player ?l1 = Some (px, py)"
    using assms np unfolding preserving_wall_def Let_def
    by (cases "find_player ?l1") auto
  have g: "in_grid (px, py)" using p by (rule find_player_in_grid)
  obtain n c where f: "flood ?l1 px py (BIT FLOOR OR BIT WALL OR BIT SPIKES) (BIT FLOOR)
      count_entities garbage = (n, ?l1, c)"
    using flood_observer [OF observer_count_entities g] by blast
  have l': "lvl' = ?l1[i := ?l1 ! i XOR BIT WALL]"
    using assms np unfolding preserving_wall_def Let_def p option.case prod.case f
    by (auto split: if_splits)
  show ?thesis
  proof (cases "i < length lvl")
    case True
    then show ?thesis unfolding l' by simp
  next
    case False
    then show ?thesis unfolding l' by (simp add: list_update_beyond)
  qed
qed

lemma wall_attempt_on_walls:
  "verified_wall_attempt (replicate 484 (BIT WALL)) (1, 0) =
     Inr (Rejected, (replicate 484 (BIT WALL))[23 := 0], (1196337638932513, 1125968760537344))"
proof -
  let ?l = "replicate 484 (BIT WALL)"
  have w: "BIT WALL AND BIT PLAYER = 0" by (simp add: BIT_and_BIT WALL_def PLAYER_def)
  have id: "?l[23 := BIT WALL] = ?l" by (simp add: list_update_same_conv)
  have c: "level_is_completable ?l = (False, ?l)"
    by (rule not_completable_without_player) (simp add: LEVEL_SIZE_def w)
  have v: "verified_wall ?l 23 = (Rejected, ?l[23 := 0])"
    unfolding verified_wall_def Let_def by (simp add: w id c)
  show ?thesis
    unfolding verified_wall_attempt_def draws_1_0 Let_def prod.case tile_index_1_1 option.case v
    by simp
qed


lemma verified_wall_keeps_completable:
  assumes "fst (level_is_completable lvl)"
  shows "fst (level_is_completable (snd (verified_wall lvl i)))"
proof (cases "fst (verified_wall lvl i)")
  case Skipped
  then have "snd (verified_wall lvl i) = lvl"
    unfolding verified_wall_def Let_def
    by (auto split: if_splits prod.splits)
  then show ?thesis using assms by simp
next
  case Rejected
  then have r: "verified_wall lvl i = (Rejected, snd (verified_wall lvl i))"
    by (metis prod.collapse)
  let ?l1 = "lvl[i := lvl ! i OR BIT WALL]"
  have nok: "\<not> fst (level_is_completable ?l1)"
    using r unfolding verified_wall_def Let_def
    by (subst (asm) level_is_completable_pair [of ?l1]) (auto split: if_splits)
  have "\<not> (i < length lvl \<and> bit (lvl ! i) WALL)"
  proof
    assume a: "i < length lvl \<and> bit (lvl ! i) WALL"
    then have "lvl ! i OR BIT WALL = lvl ! i"
      by (intro bit_word_eqI) (auto simp: bit_simps bit_BIT)
    then have "?l1 = lvl" by simp
    then show False using nok assms by simp
  qed
  then have "snd (verified_wall lvl i) = lvl" using verified_wall_rejected(2) [OF r] by blast
  then show ?thesis using assms by simp
next
  case Accepted
  then have "verified_wall lvl i = (Accepted, snd (verified_wall lvl i))"
    by (metis prod.collapse)
  then show ?thesis by (rule verified_wall_accepted)
qed

lemma verified_wall_attempt_keeps_completable:
  assumes "verified_wall_attempt lvl seed = Inr (a, lvl', seed')" "fst (level_is_completable lvl)"
  shows "fst (level_is_completable lvl')"
proof -
  obtain i where "verified_wall lvl i = (a, lvl')"
    using assms(1) unfolding verified_wall_attempt_def
    by (auto simp: Let_def split: prod.splits option.splits)
  then have "lvl' = snd (verified_wall lvl i)" by simp
  then show ?thesis using verified_wall_keeps_completable [OF assms(2)] by simp
qed

lemma verified_wall_attempts_keep_completable:
  assumes "verified_wall_attempts n lvl seed = Inr (lvl', seed')" "fst (level_is_completable lvl)"
  shows "fst (level_is_completable lvl')"
  using assms
proof (induction n arbitrary: lvl seed)
  case 0
  then show ?case by simp
next
  case (Suc n)
  obtain a l1 s1 where a: "verified_wall_attempt lvl seed = Inr (a, l1, s1)"
    using Suc.prems(1) by (cases "verified_wall_attempt lvl seed") auto
  have c1: "fst (level_is_completable l1)"
    using verified_wall_attempt_keeps_completable [OF a Suc.prems(2)] .
  show ?case
  proof (cases a)
    case Accepted
    then show ?thesis using Suc.prems(1) a c1 by simp
  next
    case Skipped
    then have "verified_wall_attempts n l1 s1 = Inr (lvl', seed')" using Suc.prems(1) a by simp
    then show ?thesis using Suc.IH c1 by blast
  next
    case Rejected
    then have "verified_wall_attempts n l1 s1 = Inr (lvl', seed')" using Suc.prems(1) a by simp
    then show ?thesis using Suc.IH c1 by blast
  qed
qed


lemma wall_attempt_open_level:
  "verified_wall_attempt open_level (1, 0) =
     Inr (Accepted, open_level[23 := BIT WALL], (1196337638932513, 1125968760537344))"
  unfolding verified_wall_attempt_def draws_1_0 Let_def prod.case tile_index_1_1 option.case
    verified_wall_open_level by simp


section \<open>The sweep of the fill generator\<close>

lemma nth_update_total: "xs[i := t] ! j = (if i = j \<and> i < length xs then t else xs ! j)"
  by (cases "i < length xs") (auto simp: nth_list_update list_update_beyond)

lemma settled_completable:
  assumes "settled lvl"
  shows "fst (level_is_completable lvl)"
proof (rule completable_player_tile [where p = "(5, 5)"])
  have i5: "idx (5, 5) = 115" by (simp add: idx_def LEVEL_SIZE_def)
  have p: "lvl ! 115 = BIT FLOOR OR BIT PLAYER OR BIT KEY OR BIT EXIT"
    using assms unfolding settled_def by blast
  have "lvl ! 115 AND BIT PLAYER \<noteq> 0"
    unfolding p using and_BIT_0 [of PLAYER "BIT FLOOR OR BIT PLAYER OR BIT KEY OR BIT EXIT"]
    by (simp add: player_tile_bits) (simp add: PLAYER_def)
  then show "first_player lvl (5, 5)"
    using assms unfolding first_player_def settled_def i5 by (simp add: in_grid_def LEVEL_SIZE_def)
  show "matches lvl (BIT FLOOR OR BIT WALL OR BIT SPIKES) (BIT FLOOR) (5, 5)"
    unfolding matches_def i5 p
    by (intro bit_word_eqI) (auto simp: bit_simps bit_BIT FLOOR_def PLAYER_def KEY_def EXIT_def
        WALL_def SPIKES_def)
  show "bit (lvl ! idx (5, 5)) KEY" "bit (lvl ! idx (5, 5)) EXIT"
    unfolding i5 p by (simp_all add: player_tile_bits)
qed

lemma settled_update:
  assumes "settled lvl" "i \<noteq> 115" "t AND BIT PLAYER = 0"
  shows "settled (lvl[i := t])"
  using assms unfolding settled_def by (auto simp: nth_update_total)

lemma wall_no_player: "BIT WALL AND BIT PLAYER = 0"
  by (simp add: BIT_and_BIT WALL_def PLAYER_def)

lemma fill_row_settled:
  assumes "settled lvl" "x + y * LEVEL_SIZE \<noteq> 115" "x + y * LEVEL_SIZE < 484"
  shows "fill_row y (x # xs) lvl = lvl[x + y * LEVEL_SIZE := BIT WALL]"
proof -
  let ?i = "x + y * LEVEL_SIZE"
  let ?l1 = "lvl[?i := lvl ! ?i OR BIT WALL]"
  have "lvl ! ?i AND BIT PLAYER = 0" using assms unfolding settled_def by blast
  then have "(lvl ! ?i OR BIT WALL) AND BIT PLAYER = 0"
    by (simp add: bit.conj_disj_distrib2 wall_no_player)
  then have "settled ?l1" using assms(1,2) by (intro settled_update)
  then have "fst (level_is_completable ?l1)" by (rule settled_completable)
  then have c: "level_is_completable ?l1 = (True, ?l1)"
    using level_is_completable_pair [of ?l1] by simp
  show ?thesis by (simp add: Let_def c)
qed

lemma fill_rows_settled:
  assumes "settled lvl" "\<forall>y \<in> set ys. x + y * LEVEL_SIZE \<noteq> 115 \<and> x + y * LEVEL_SIZE < 484"
  shows "foldl (\<lambda>l y. fill_row y (x # xs) l) lvl ys =
      foldl (\<lambda>l y. l[x + y * LEVEL_SIZE := BIT WALL]) lvl ys \<and>
    settled (foldl (\<lambda>l y. l[x + y * LEVEL_SIZE := BIT WALL]) lvl ys)"
  using assms
proof (induction ys arbitrary: lvl)
  case Nil
  then show ?case by simp
next
  case (Cons y ys)
  have s: "settled (lvl[x + y * LEVEL_SIZE := BIT WALL])"
    using Cons.prems by (intro settled_update wall_no_player) simp_all
  have f: "fill_row y (x # xs) lvl = lvl[x + y * LEVEL_SIZE := BIT WALL]"
    using Cons.prems by (intro fill_row_settled) simp_all
  show ?case using Cons.IH [OF s] Cons.prems(2) unfolding foldl_Cons f by simp
qed

lemma foldl_update_other:
  "\<forall>y \<in> set ys. f y \<noteq> j \<Longrightarrow> foldl (\<lambda>l y. l[f y := t]) lvl ys ! j = lvl ! j"
  by (induction ys arbitrary: lvl) (simp_all add: nth_update_total)

lemma settled_open_level: "settled open_level"
  unfolding settled_def open_level_def
  by (simp add: nth_update_total BIT_and_BIT FLOOR_def PLAYER_def)


lemma fill_row_break:
  assumes "fst (level_is_completable (lvl[x + y * LEVEL_SIZE := lvl ! (x + y * LEVEL_SIZE) OR BIT WALL]))"
  shows "fill_row y (x # xs) lvl = lvl[x + y * LEVEL_SIZE := BIT WALL]"
  using assms
    level_is_completable_pair [of "lvl[x + y * LEVEL_SIZE := lvl ! (x + y * LEVEL_SIZE) OR BIT WALL]"]
  by (simp add: Let_def split: prod.split)

section \<open>Bytes and tiles\<close>

lemma tile_of_bytes_of_tile:
  "bytes_of_tile bo t = [a, b] \<Longrightarrow> tile_of_bytes bo a b = t"
  unfolding bytes_of_tile_def tile_of_bytes_def
  by (cases bo; clarsimp; intro bit_word_eqI; auto simp: bit_simps)

lemma bytes_of_tile_two: "\<exists>a b. bytes_of_tile bo t = [a, b]"
  by (cases bo) (simp_all add: bytes_of_tile_def)

lemma length_tile_bytes: "length (concat (map (bytes_of_tile bo) ts)) = 2 * length ts"
proof (induction ts)
  case Nil
  then show ?case by simp
next
  case (Cons t ts)
  obtain a b where "bytes_of_tile bo t = [a, b]" using bytes_of_tile_two by blast
  then show ?case using Cons by simp
qed

lemma tiles_of_tile_bytes: "tiles_of_bytes bo (concat (map (bytes_of_tile bo) ts) @ bs) =
    ts @ tiles_of_bytes bo bs"
proof (induction ts)
  case Nil
  then show ?case by simp
next
  case (Cons t ts)
  obtain a b where ab: "bytes_of_tile bo t = [a, b]" using bytes_of_tile_two by blast
  then show ?case using Cons tile_of_bytes_of_tile [OF ab] by simp
qed



lemma tiles_of_bytes_of_tiles: "tiles_of_bytes bo (concat (map (bytes_of_tile bo) ts)) = ts"
  using tiles_of_tile_bytes [of bo ts "[]"] by simp














lemma fflush_twice:
  assumes "position file \<le> length (contents file)"
  shows "snd (fflush b (snd (fflush a file))) = snd (fflush (a + b) file)"
proof -
  define c where "c = contents file"
  define p where "p = position file"
  define o1 where "o1 = take a (buffered file)"
  define o2 where "o2 = take b (drop a (buffered file))"
  have o: "take (a + b) (buffered file) = o1 @ o2" by (simp add: o1_def o2_def take_add)
  have pc: "p \<le> length c" using assms by (simp add: p_def c_def)
  have k: "take (p + length o1) (take p c @ o1 @ drop (p + length o1) c) @ o2 @
      drop (p + length o1 + length o2) (take p c @ o1 @ drop (p + length o1) c) =
      take p c @ (o1 @ o2) @ drop (p + length (o1 @ o2)) c"
    using pc by (simp add: add.commute add.left_commute)
  have "snd (fflush b (snd (fflush a file))) =
      file\<lparr>contents := take (p + length o1) (take p c @ o1 @ drop (p + length o1) c) @ o2 @
          drop (p + length o1 + length o2) (take p c @ o1 @ drop (p + length o1) c),
        position := p + length o1 + length o2,
        buffered := drop b (drop a (buffered file))\<rparr>"
    unfolding fflush_def Let_def snd_conv c_def p_def o1_def o2_def by simp
  also have "\<dots> = file\<lparr>contents := take p c @ (o1 @ o2) @ drop (p + length (o1 @ o2)) c,
        position := p + length (o1 @ o2),
        buffered := drop (a + b) (buffered file)\<rparr>"
    unfolding k by (simp add: add.commute)
  also have "\<dots> = snd (fflush (a + b) file)"
    unfolding fflush_def Let_def snd_conv o c_def p_def by simp
  finally show ?thesis .
qed

lemma fflush_all:
  assumes "length (buffered file) \<le> dev"
  shows "snd (fflush dev file) =
    file\<lparr>contents := take (position file) (contents file) @ buffered file @
             drop (position file + length (buffered file)) (contents file),
          position := position file + length (buffered file), buffered := []\<rparr>"
  using assms unfolding fflush_def Let_def by simp


section \<open>A run of the verified placer\<close>

lemma hazard_draws:
  "chance (9395241 / 134217728) (10649347349785987228, 4763237597476871048) =
     (False, 9254908617954741744, 4436381315205954148)"
  "chance (16106127 / 536870912) (9254908617954741744, 4436381315205954148) =
     (False, 821020908230198770, 5634980925525963126)"
  "chance (16106127 / 536870912) (821020908230198770, 5634980925525963126) =
     (False, 6091760087130073574, 11715912413956683285)"
  "chance (9395241 / 134217728) (6091760087130073574, 11715912413956683285) =
     (False, 5100286091819596487, 8288311336934374436)"
  "chance (16106127 / 536870912) (5100286091819596487, 8288311336934374436) =
     (False, 16097548945406059582, 2401665668163453231)"
  "chance (16106127 / 536870912) (16097548945406059582, 2401665668163453231) =
     (True, 9515118536789907235, 10692197662726902934)"
  "chance (9395241 / 134217728) (9515118536789907235, 10692197662726902934) =
     (False, 761817814825848798, 16147721683130830763)"
  "chance (16106127 / 536870912) (761817814825848798, 16147721683130830763) =
     (False, 12252814641959002450, 12252050889399591250)"
  "chance (16106127 / 536870912) (12252814641959002450, 12252050889399591250) =
     (False, 576460752300561904, 2861584)"
  by code_simp+

lemma placement_draws:
  "random_int_range 1 (int LEVEL_SIZE - 1) (576460752300561904, 2861584) =
     (1, 1125899906323914, 18446741876833779711)"
  "random_int_range 1 (int LEVEL_SIZE - 1) (1125899906323914, 18446741876833779711) =
     (1, 1910616964073870911, 35645479773544440)"
  "random_int_range 1 (int LEVEL_SIZE - 1) (1910616964073870911, 35645479773544440) =
     (3, 6172073351704884076, 12345664490624529895)"
  "random_int_range 1 (int LEVEL_SIZE - 1) (6172073351704884076, 12345664490624529895) =
     (1, 9855409013265843602, 9016321627556677416)"
  "random_int_range 1 (int LEVEL_SIZE - 1) (9855409013265843602, 9016321627556677416) =
     (1, 8799051241003528408, 10181560889779531646)"
  "random_int_range 1 (int LEVEL_SIZE - 1) (8799051241003528408, 10181560889779531646) =
     (1, 12761106910015366014, 2486543825897168202)"
  by code_simp+

lemma scatter_entities_append:
  "scatter_entities g e s (cs @ ds) lvl seed =
    (case scatter_entities g e s cs lvl seed of (l, sd) \<Rightarrow> scatter_entities g e s ds l sd)"
  by (induction cs arbitrary: lvl seed) (auto split: prod.splits)

lemma scatter_entities_walls:
  "\<forall>c \<in> set cs. lvl ! idx c AND BIT WALL \<noteq> 0 \<Longrightarrow> scatter_entities g e s cs lvl seed = (lvl, seed)"
  by (induction cs) (auto simp: scatter_tile_def)

lemma interior_cells_split:
  "interior_cells = [(1, 1), (2, 1), (3, 1)] @ drop 3 interior_cells"
  "\<forall>c \<in> set (drop 3 interior_cells). 25 < idx c \<and> idx c < 484"
proof -
  have "take 3 interior_cells = [(1, 1), (2, 1), (3, 1)]" by code_simp
  then show "interior_cells = [(1, 1), (2, 1), (3, 1)] @ drop 3 interior_cells"
    using append_take_drop_id [of 3 interior_cells] by simp
  show "\<forall>c \<in> set (drop 3 interior_cells). 25 < idx c \<and> idx c < 484" by code_simp
qed

lemma component_isolated:
  assumes "\<And>c'. in_grid c' \<Longrightarrow> adjacent s c' \<Longrightarrow> \<not> matches lvl msk target c'"
  shows "component lvl msk target s \<subseteq> {s}"
proof
  fix c assume "c \<in> component lvl msk target s"
  then show "c \<in> {s}"
    by (induction rule: component.induct) (use assms in auto)
qed

lemma flood_record_tiles_level:
  assumes "in_grid (x, y)"
  shows "fst (snd (flood lvl x y msk target flood_record_tiles d)) = lvl"
  using flood_observer [OF observer_flood_record_tiles assms, of lvl msk target d] by auto

lemma flood_record_tiles_start:
  assumes "in_grid (x, y)" "matches lvl msk target (x, y)" "bit (lvl ! idx (x, y)) n"
  shows "bit (snd (snd (flood lvl x y msk target flood_record_tiles d))) n"
proof -
  obtain vs where vs: "set vs = component lvl msk target (x, y)"
    "flood lvl x y msk target flood_record_tiles d =
       (length vs, lvl, foldl (visit_data flood_record_tiles lvl) d vs)"
    using flood_observer [OF observer_flood_record_tiles assms(1), of lvl msk target d] by blast
  have "(x, y) \<in> set vs" unfolding vs(1) using assms(1,2) by (rule component.start)
  then show ?thesis unfolding vs(2) using assms(3) by (auto simp: foldl_record_tiles_bit)
qed

lemma choose_verified_floor:
  assumes "random_int_range 1 (int LEVEL_SIZE - 1) seed = (x, seed1)"
    and "random_int_range 1 (int LEVEL_SIZE - 1) seed1 = (y, seed2)"
    and "tile_index x y = Some i" and "in_grid (nat x, nat y)" and "lvl ! i = BIT FLOOR"
  shows "choose_verified wanted lvl seen seed = Some (Inr (i, lvl, seed2))"
proof -
  have l: "fst (snd (flood lvl (nat x) (nat y) (BIT FLOOR OR BIT WALL OR BIT SPIKES) (BIT FLOOR)
      flood_record_tiles seen)) = lvl"
    using assms(4) by (rule flood_record_tiles_level)
  show ?thesis
    by (subst choose_verified.simps) (use l assms(5) in \<open>auto simp: assms(1,2,3) split: prod.splits\<close>)
qed

lemma choose_verified_seen:
  assumes "random_int_range 1 (int LEVEL_SIZE - 1) seed = (x, seed1)"
    and "random_int_range 1 (int LEVEL_SIZE - 1) seed1 = (y, seed2)"
    and "tile_index x y = Some i" and "in_grid (nat x, nat y)"
    and "matches lvl (BIT FLOOR OR BIT WALL OR BIT SPIKES) (BIT FLOOR) (nat x, nat y)"
    and "bit (lvl ! idx (nat x, nat y)) n" "bit wanted n"
  shows "choose_verified wanted lvl seen seed = Some (Inr (i, lvl, seed2))"
proof -
  let ?f = "flood lvl (nat x) (nat y) (BIT FLOOR OR BIT WALL OR BIT SPIKES) (BIT FLOOR)
      flood_record_tiles seen"
  have l: "fst (snd ?f) = lvl" using assms(4) by (rule flood_record_tiles_level)
  have "bit (snd (snd ?f)) n" using assms(4,5,6) by (rule flood_record_tiles_start)
  then have "bit (snd (snd ?f) AND wanted) n" using assms(7) by (simp add: bit_simps)
  then have s: "snd (snd ?f) AND wanted \<noteq> 0" by auto
  show ?thesis
    by (subst choose_verified.simps) (use l s in \<open>auto simp: assms(1,2,3) split: prod.splits\<close>)
qed

lemma choose_floor_hit:
  assumes "random_int_range 1 (int LEVEL_SIZE - 1) seed = (x, seed1)"
    and "random_int_range 1 (int LEVEL_SIZE - 1) seed1 = (y, seed2)"
    and "tile_index x y = Some i" and "lvl ! i = BIT FLOOR"
  shows "choose_floor lvl seed = Some (Inr (i, seed2))"
  by (subst choose_floor.simps) (simp add: assms)

lemma corridor_nth:
  "j < 484 \<Longrightarrow> corridor_level ! j = (if j \<in> {23, 24, 25} then BIT FLOOR else BIT WALL)"
  by (auto simp: corridor_level_def nth_list_update)

lemma length_corridor: "length corridor_level = 484"
  by (simp add: corridor_level_def)

lemma tile_index_small:
  "tile_index 1 1 = Some 23" "tile_index 3 1 = Some 25"
  by (simp_all add: tile_index_def LEVEL_SIZE_def)

lemma wall_and_wall: "BIT WALL AND BIT WALL \<noteq> 0"
  using bit_BIT_self [of WALL] by (auto simp: WALL_def)

lemma floor_and_wall: "BIT FLOOR AND BIT WALL = 0"
  by (simp add: BIT_and_BIT FLOOR_def WALL_def)

lemma placer_run:
  "verified_scatter_placer corridor_level None (10649347349785987228, 4763237597476871048) =
     Some (Inr (placed_level, (12761106910015366014, 2486543825897168202)))"
proof -
  define L1 where "L1 = corridor_level[24 := BIT FLOOR OR BIT SPIKES]"
  define L2 where "L2 = L1[23 := BIT FLOOR OR (BIT EXIT OR BIT LOCK)]"
  define L4 where "L4 = L2[25 := BIT FLOOR OR BIT KEY]"
  have n1: "\<And>j. j < 484 \<Longrightarrow> L1 ! j =
      (if j = 24 then BIT FLOOR OR BIT SPIKES else if j \<in> {23, 25} then BIT FLOOR else BIT WALL)"
    by (auto simp: L1_def corridor_nth nth_list_update length_corridor)
  have n2: "\<And>j. j < 484 \<Longrightarrow> L2 ! j =
      (if j = 23 then BIT FLOOR OR (BIT EXIT OR BIT LOCK) else L1 ! j)"
    by (auto simp: L2_def L1_def nth_list_update length_corridor)
  have n4: "\<And>j. j < 484 \<Longrightarrow> L4 ! j = (if j = 25 then BIT FLOOR OR BIT KEY else L2 ! j)"
    by (auto simp: L4_def L2_def L1_def nth_list_update length_corridor)
  have first3: "scatter_entities (9395241 / 134217728) (16106127 / 536870912) (16106127 / 536870912)
      [(1, 1), (2, 1), (3, 1)] corridor_level (10649347349785987228, 4763237597476871048) =
      (L1, (576460752300561904, 2861584))"
  proof -
    have i: "idx (1, 1) = 23" "idx (2, 1) = 24" "idx (3, 1) = 25"
      by (simp_all add: idx_def LEVEL_SIZE_def)
    have a: "corridor_level[23 := BIT FLOOR] = corridor_level"
      by (simp add: list_update_same_conv length_corridor corridor_nth)
    have b: "L1[25 := BIT FLOOR] = L1" using n1 [of 25]
      by (simp add: list_update_same_conv L1_def length_corridor)
    show ?thesis
      unfolding scatter_entities.simps i
      by (simp add: corridor_nth scatter_tile_def floor_and_wall hazard_draws a
          L1_def [symmetric] n1 b)
  qed
  have rest: "scatter_entities (9395241 / 134217728) (16106127 / 536870912) (16106127 / 536870912)
      (drop 3 interior_cells) L1 (576460752300561904, 2861584) = (L1, (576460752300561904, 2861584))"
    by (rule scatter_entities_walls) (use interior_cells_split(2) n1 wall_and_wall in auto)
  have hz: "scatter_entities (9395241 / 134217728) (16106127 / 536870912) (16106127 / 536870912)
      interior_cells corridor_level (10649347349785987228, 4763237597476871048) =
      (L1, (576460752300561904, 2861584))"
    by (subst interior_cells_split(1)) (simp only: scatter_entities_append first3 rest prod.case)
  have ex: "choose_floor L1 (576460752300561904, 2861584) =
      Some (Inr (23, (1910616964073870911, 35645479773544440)))"
    by (rule choose_floor_hit [OF placement_draws(1,2) tile_index_small(1)]) (simp add: n1)
  have g: "in_grid (nat 3, nat 1)" "in_grid (nat 1, nat 1)"
    by (simp_all add: in_grid_def LEVEL_SIZE_def)
  have ky: "choose_verified (BIT EXIT) L2 0 (1910616964073870911, 35645479773544440) =
      Some (Inr (25, L2, (9855409013265843602, 9016321627556677416)))"
    by (rule choose_verified_floor [OF placement_draws(3,4) tile_index_small(2) g(1)])
       (simp add: n2 n1)
  have i11: "idx (nat 1, nat 1) = 23" by (simp add: idx_def LEVEL_SIZE_def)
  have t23: "L4 ! 23 = BIT FLOOR OR (BIT EXIT OR BIT LOCK)" by (simp add: n4 n2)
  have m: "matches L4 (BIT FLOOR OR BIT WALL OR BIT SPIKES) (BIT FLOOR) (nat 1, nat 1)"
    unfolding matches_def i11 t23
    by (intro bit_word_eqI) (auto simp: bit_simps bit_BIT FLOOR_def EXIT_def LOCK_def
        WALL_def SPIKES_def)
  have pl: "choose_verified (BIT EXIT OR BIT KEY) L4 0 (9855409013265843602, 9016321627556677416) =
      Some (Inr (23, L4, (12761106910015366014, 2486543825897168202)))"
  proof (rule choose_verified_seen [OF placement_draws(5,6) tile_index_small(1) g(2) m, of EXIT])
    show "bit (L4 ! idx (nat 1, nat 1)) EXIT"
      unfolding i11 t23 by (simp add: bit_simps bit_BIT EXIT_def)
    show "bit (BIT EXIT OR BIT KEY) EXIT" by (simp add: bit_simps bit_BIT EXIT_def)
  qed
  have out: "L4[23 := L4 ! 23 OR BIT PLAYER] = placed_level"
  proof (rule nth_equalityI)
    show "length (L4[23 := L4 ! 23 OR BIT PLAYER]) = length placed_level"
      by (simp add: L4_def L2_def L1_def length_corridor placed_level_def)
    fix j assume "j < length (L4[23 := L4 ! 23 OR BIT PLAYER])"
    then have j: "j < 484" by (simp add: L4_def L2_def L1_def length_corridor)
    have l4: "length L4 = 484" by (simp add: L4_def L2_def L1_def length_corridor)
    show "L4[23 := L4 ! 23 OR BIT PLAYER] ! j = placed_level ! j"
      using j by (auto simp: nth_list_update l4 n4 n2 n1 placed_level_def ac_simps)
  qed
  show ?thesis
    unfolding verified_scatter_placer_def
    by (simp add: hz ex Let_def n1 L2_def [symmetric] ky n2 L4_def [symmetric] pl out)
qed

lemma placed_nth:
  "j < 484 \<Longrightarrow> placed_level ! j =
    (if j = 23 then BIT FLOOR OR (BIT EXIT OR BIT LOCK) OR BIT PLAYER
     else if j = 24 then BIT FLOOR OR BIT SPIKES
     else if j = 25 then BIT FLOOR OR BIT KEY else BIT WALL)"
  by (auto simp: placed_level_def nth_list_update)

lemma adjacent_1_1:
  assumes "adjacent (1, 1) c"
  shows "idx c \<in> {1, 22, 24, 45}"
proof -
  obtain x y where c: "c = (x, y)" by (cases c)
  show ?thesis using assms unfolding c adjacent_def by (auto simp: idx_def LEVEL_SIZE_def)
qed

lemma spikes_no_match:
  "(BIT FLOOR OR BIT SPIKES) AND (BIT FLOOR OR BIT WALL OR BIT SPIKES) \<noteq>
     BIT FLOOR AND (BIT FLOOR OR BIT WALL OR BIT SPIKES)"
proof
  assume e: "(BIT FLOOR OR BIT SPIKES) AND (BIT FLOOR OR BIT WALL OR BIT SPIKES) =
     BIT FLOOR AND (BIT FLOOR OR BIT WALL OR BIT SPIKES)"
  have "bit ((BIT FLOOR OR BIT SPIKES) AND (BIT FLOOR OR BIT WALL OR BIT SPIKES)) SPIKES"
    by (simp add: bit_simps bit_BIT SPIKES_def)
  moreover have "\<not> bit (BIT FLOOR AND (BIT FLOOR OR BIT WALL OR BIT SPIKES)) SPIKES"
    by (simp add: bit_simps bit_BIT SPIKES_def FLOOR_def)
  ultimately show False using e by simp
qed

lemma placed_level_not_completable: "\<not> fst (level_is_completable placed_level)"
proof -
  let ?M = "BIT FLOOR OR BIT WALL OR BIT SPIKES"
  have i: "idx (1, 1) = 23" by (simp add: idx_def LEVEL_SIZE_def)
  have wp: "BIT WALL AND BIT PLAYER = 0" by (simp add: BIT_and_BIT WALL_def PLAYER_def)
  have "bit (placed_level ! 23) PLAYER" by (simp add: placed_nth bit_simps bit_BIT PLAYER_def)
  then have "placed_level ! 23 AND BIT PLAYER \<noteq> 0"
    using and_BIT_0 [of PLAYER "placed_level ! 23"] by (simp add: PLAYER_def)
  then have "first_player placed_level (1, 1)"
    unfolding first_player_def i by (simp add: in_grid_def LEVEL_SIZE_def placed_nth wp)
  then have fp: "find_player placed_level = Some (1, 1)" using find_player_first by blast
  have "\<not> matches placed_level ?M (BIT FLOOR) c" if "adjacent (1, 1) c" for c
    using adjacent_1_1 [OF that] wall_no_match [of "BIT WALL"] spikes_no_match
    unfolding matches_def by (auto simp: placed_nth bit_BIT WALL_def)
  then have sub: "component placed_level ?M (BIT FLOOR) (1, 1) \<subseteq> {(1, 1)}"
    by (intro component_isolated) blast
  have "\<not> bit (placed_level ! idx (1, 1)) KEY"
    unfolding i by (simp add: placed_nth bit_simps bit_BIT KEY_def FLOOR_def EXIT_def LOCK_def PLAYER_def)
  then have "\<not> (\<exists>c \<in> component placed_level ?M (BIT FLOOR) (1, 1). bit (placed_level ! idx c) KEY)"
    using sub by blast
  then show ?thesis unfolding level_is_completable_char fp by simp
qed

lemma corridor_completable_placement:
  "fst (level_is_completable (corridor_level[23 := BIT FLOOR OR BIT PLAYER,
      24 := BIT FLOOR OR BIT KEY, 25 := BIT FLOOR OR (BIT EXIT OR BIT LOCK)]))"
proof -
  let ?M = "BIT FLOOR OR BIT WALL OR BIT SPIKES"
  define l where "l = corridor_level[23 := BIT FLOOR OR BIT PLAYER,
      24 := BIT FLOOR OR BIT KEY, 25 := BIT FLOOR OR (BIT EXIT OR BIT LOCK)]"
  have n: "\<And>j. j < 484 \<Longrightarrow> l ! j =
      (if j = 23 then BIT FLOOR OR BIT PLAYER else if j = 24 then BIT FLOOR OR BIT KEY
       else if j = 25 then BIT FLOOR OR (BIT EXIT OR BIT LOCK) else BIT WALL)"
    by (auto simp: l_def nth_list_update length_corridor corridor_nth)
  have i: "idx (1, 1) = 23" "idx (2, 1) = 24" "idx (3, 1) = 25"
    by (simp_all add: idx_def LEVEL_SIZE_def)
  have g: "in_grid (1, 1)" "in_grid (2, 1)" "in_grid (3, 1)"
    by (simp_all add: in_grid_def LEVEL_SIZE_def)
  have wp: "BIT WALL AND BIT PLAYER = 0" by (simp add: BIT_and_BIT WALL_def PLAYER_def)
  have "bit (l ! 23) PLAYER" by (simp add: n bit_simps bit_BIT PLAYER_def)
  then have "l ! 23 AND BIT PLAYER \<noteq> 0"
    using and_BIT_0 [of PLAYER "l ! 23"] by (simp add: PLAYER_def)
  then have "first_player l (1, 1)"
    unfolding first_player_def i using g(1) by (simp add: n wp)
  then have fp: "find_player l = Some (1, 1)" using find_player_first by blast
  have t: "l ! 23 = BIT FLOOR OR BIT PLAYER" "l ! 24 = BIT FLOOR OR BIT KEY"
    "l ! 25 = BIT FLOOR OR (BIT EXIT OR BIT LOCK)" by (simp_all add: n)
  have m1: "matches l ?M (BIT FLOOR) (1, 1)"
    unfolding matches_def i t
    by (intro bit_word_eqI) (auto simp: bit_simps bit_BIT FLOOR_def WALL_def SPIKES_def PLAYER_def)
  have m2: "matches l ?M (BIT FLOOR) (2, 1)"
    unfolding matches_def i t
    by (intro bit_word_eqI) (auto simp: bit_simps bit_BIT FLOOR_def WALL_def SPIKES_def KEY_def)
  have m3: "matches l ?M (BIT FLOOR) (3, 1)"
    unfolding matches_def i t
    by (intro bit_word_eqI)
       (auto simp: bit_simps bit_BIT FLOOR_def WALL_def SPIKES_def EXIT_def LOCK_def)
  have c1: "(1, 1) \<in> component l ?M (BIT FLOOR) (1, 1)" using g(1) m1 by (rule component.start)
  have c2: "(2, 1) \<in> component l ?M (BIT FLOOR) (1, 1)"
    by (rule component.step [OF c1 g(2) _ m2]) (simp add: adjacent_def)
  have c3: "(3, 1) \<in> component l ?M (BIT FLOOR) (1, 1)"
    by (rule component.step [OF c2 g(3) _ m3]) (simp add: adjacent_def)
  have "bit (l ! idx (2, 1)) KEY" "bit (l ! idx (3, 1)) EXIT"
    unfolding i by (simp_all add: n bit_simps bit_BIT KEY_def EXIT_def)
  then have "fst (level_is_completable l)"
    unfolding level_is_completable_char fp using c2 c3 by auto
  then show ?thesis unfolding l_def .
qed


text \<open>Claim C1. With a visitor that never signals stop and leaves the tiles alone, and a
  start cell of the grid, the flood calls the visitor once on each cell of the connected
  matching component of the start and on no other cell: the calls run along a list without
  repetition whose cells are exactly the component, the data are what these calls make of
  them in turn, the level is untouched, and the returned step count is the size of the
  component, which is 0 when the start cell does not match.\<close>

theorem flood_visits_component_once:
  assumes "observer func" and "in_grid (start_x, start_y)"
  shows "\<exists>vs. distinct vs \<and> set vs = component lvl msk target (start_x, start_y) \<and>
      flood lvl start_x start_y msk target func d =
        (card (component lvl msk target (start_x, start_y)), lvl,
         foldl (visit_data func lvl) d vs) \<and>
      card (component lvl msk target (start_x, start_y)) =
        (if matches lvl msk target (start_x, start_y) then length vs else 0)"
proof -
  obtain vs where vs: "distinct vs" "set vs = component lvl msk target (start_x, start_y)"
    "flood lvl start_x start_y msk target func d = (length vs, lvl, foldl (visit_data func lvl) d vs)"
    using flood_observer [OF assms] by blast
  have c: "card (component lvl msk target (start_x, start_y)) = length vs"
    using distinct_card [OF vs(1)] vs(2) by simp
  have "\<not> matches lvl msk target (start_x, start_y) \<Longrightarrow> length vs = 0"
    using component_no_match [of lvl msk target "(start_x, start_y)"] vs(2) by simp
  then show ?thesis using vs c by (intro exI [of _ vs]) auto
qed

text \<open>On a level of floor tiles, with the visitor that notes its cells: the cells noted are
  the component, each once.\<close>

theorem flood_visits_component_once_witness:
  "\<exists>vs. distinct vs \<and>
      set vs = component (replicate 484 (BIT FLOOR)) (BIT FLOOR) (BIT FLOOR) (3, 4) \<and>
      flood (replicate 484 (BIT FLOOR)) 3 4 (BIT FLOOR) (BIT FLOOR) record_cells [] =
        (card (component (replicate 484 (BIT FLOOR)) (BIT FLOOR) (BIT FLOOR) (3, 4)),
         replicate 484 (BIT FLOOR), vs)"
proof -
  have g: "in_grid (3, 4)" by (simp add: in_grid_def LEVEL_SIZE_def)
  show ?thesis
    using flood_visits_component_once [OF observer_record_cells g,
        of "replicate 484 (BIT FLOOR)" "BIT FLOOR" "BIT FLOOR" "[]"]
    unfolding foldl_record_cells by auto
qed

text \<open>Claim C2. \<open>level_is_completable\<close> returns true exactly when some tile has the player's
  bit and the bitwise OR of the tiles of the component reached from the first such tile,
  flooding with the mask of floor, wall and spikes and the target floor, has both the key's
  and the exit's bit. In particular it returns false on a level without a player tile, and on
  a level without a key tile, whatever else is reachable.\<close>

theorem level_is_completable_iff:
  "(fst (level_is_completable lvl) \<longleftrightarrow>
      (\<exists>p vs. first_player lvl p \<and> distinct vs \<and>
          set vs = component lvl (BIT FLOOR OR BIT WALL OR BIT SPIKES) (BIT FLOOR) p \<and>
          or_tiles lvl vs AND (BIT KEY OR BIT EXIT) = BIT KEY OR BIT EXIT)) \<and>
   ((\<forall>c. in_grid c \<longrightarrow> lvl ! idx c AND BIT PLAYER = 0) \<longrightarrow> \<not> fst (level_is_completable lvl)) \<and>
   ((\<forall>c. in_grid c \<longrightarrow> lvl ! idx c AND BIT KEY = 0) \<longrightarrow> \<not> fst (level_is_completable lvl))"
proof (intro conjI impI)
  let ?M = "BIT FLOOR OR BIT WALL OR BIT SPIKES"
  show "fst (level_is_completable lvl) \<longleftrightarrow>
      (\<exists>p vs. first_player lvl p \<and> distinct vs \<and> set vs = component lvl ?M (BIT FLOOR) p \<and>
          or_tiles lvl vs AND (BIT KEY OR BIT EXIT) = BIT KEY OR BIT EXIT)"
  proof
    assume a: "fst (level_is_completable lvl)"
    then obtain p where p: "find_player lvl = Some p"
      by (cases "find_player lvl") (simp_all add: level_is_completable_char)
    obtain px py where pp: "p = (px, py)" by (cases p)
    have g: "in_grid (px, py)" using p pp find_player_in_grid by blast
    obtain vs where vs: "distinct vs" "set vs = component lvl ?M (BIT FLOOR) p"
      using flood_observer [OF observer_flood_record_tiles g, of lvl ?M "BIT FLOOR" 0] pp by blast
    have "bit (or_tiles lvl vs) KEY \<and> bit (or_tiles lvl vs) EXIT"
      using a p vs(2) by (simp add: level_is_completable_char bit_or_tiles)
    then show "\<exists>p vs. first_player lvl p \<and> distinct vs \<and> set vs = component lvl ?M (BIT FLOOR) p \<and>
          or_tiles lvl vs AND (BIT KEY OR BIT EXIT) = BIT KEY OR BIT EXIT"
      using p vs find_player_first and_key_exit by blast
  next
    assume "\<exists>p vs. first_player lvl p \<and> distinct vs \<and> set vs = component lvl ?M (BIT FLOOR) p \<and>
          or_tiles lvl vs AND (BIT KEY OR BIT EXIT) = BIT KEY OR BIT EXIT"
    then obtain p vs where fp: "first_player lvl p"
      and vs: "set vs = component lvl ?M (BIT FLOOR) p"
      and o: "or_tiles lvl vs AND (BIT KEY OR BIT EXIT) = BIT KEY OR BIT EXIT" by blast
    have p: "find_player lvl = Some p" using fp find_player_first by blast
    have "bit (or_tiles lvl vs) KEY \<and> bit (or_tiles lvl vs) EXIT" using o and_key_exit by blast
    then show "fst (level_is_completable lvl)"
      using p vs by (simp add: level_is_completable_char bit_or_tiles)
  qed
next
  assume "\<forall>c. in_grid c \<longrightarrow> lvl ! idx c AND BIT PLAYER = 0"
  then have "find_player lvl = None"
    unfolding find_player_def find_player_cells_None set_level_cells by blast
  then show "\<not> fst (level_is_completable lvl)" by (simp add: level_is_completable_char)
next
  assume nk: "\<forall>c. in_grid c \<longrightarrow> lvl ! idx c AND BIT KEY = 0"
  have "\<not> bit (lvl ! idx c) KEY"
    if "c \<in> component lvl (BIT FLOOR OR BIT WALL OR BIT SPIKES) (BIT FLOOR) p" for c p
  proof -
    have "lvl ! idx c AND BIT KEY = 0" using nk component_in_grid [OF that] by blast
    then show ?thesis using and_BIT_0 [of KEY "lvl ! idx c"] by (simp add: KEY_def)
  qed
  then show "\<not> fst (level_is_completable lvl)"
    by (cases "find_player lvl") (auto simp: level_is_completable_char)
qed

theorem level_is_completable_iff_witness:
  "\<not> fst (level_is_completable (replicate 484 (BIT WALL))) \<and>
   \<not> fst (level_is_completable (replicate 484 (BIT FLOOR OR BIT PLAYER OR BIT EXIT)))"
proof -
  have i: "\<And>c. in_grid c \<Longrightarrow> idx c < 484" using idx_less by (simp add: LEVEL_SIZE_def)
  have 1: "\<forall>c. in_grid c \<longrightarrow> replicate 484 (BIT WALL) ! idx c AND BIT PLAYER = 0"
    using i by (simp add: BIT_and_BIT WALL_def PLAYER_def)
  have "(BIT FLOOR OR BIT PLAYER OR BIT EXIT) AND BIT KEY = 0"
    by (simp add: bit.conj_disj_distrib2 BIT_and_BIT FLOOR_def PLAYER_def EXIT_def KEY_def)
  then have 2: "\<forall>c. in_grid c \<longrightarrow>
      replicate 484 (BIT FLOOR OR BIT PLAYER OR BIT EXIT) ! idx c AND BIT KEY = 0"
    using i by simp
  show ?thesis
    using level_is_completable_iff [of "replicate 484 (BIT WALL)"]
      level_is_completable_iff [of "replicate 484 (BIT FLOOR OR BIT PLAYER OR BIT EXIT)"] 1 2
    by blast
qed


text \<open>Claim C3, at an input where the code breaks it. The corridor level admits a completable
  placement (player, key and exit on its three tiles). With the default chances and the
  random source in the state \<open>(10649347349785987228, 4763237597476871048)\<close> the placer
  returns \<open>placed_level\<close>: it scatters spikes on the middle tile, puts the exit on \<open>(1, 1)\<close>,
  accepts \<open>(3, 1)\<close> for the key because that tile is bare floor, although its flood did not
  reach the exit, and puts the player on the exit's tile. \<open>level_is_completable\<close> is false
  on the result.\<close>

theorem verified_scatter_placer_not_completable:
  "verified_scatter_placer corridor_level None (10649347349785987228, 4763237597476871048) =
     Some (Inr (placed_level, (12761106910015366014, 2486543825897168202))) \<and>
   \<not> fst (level_is_completable placed_level) \<and>
   fst (level_is_completable (corridor_level[23 := BIT FLOOR OR BIT PLAYER,
      24 := BIT FLOOR OR BIT KEY, 25 := BIT FLOOR OR (BIT EXIT OR BIT LOCK)]))"
  using placer_run placed_level_not_completable corridor_completable_placement by blast

text \<open>Claim C4. For every level and every state of the random source: when an attempt of
  \<open>reverse_verified_scatter_generator\<close> keeps its wall, a level that was completable before
  the attempt is completable after it, the tile collapsed to a bare wall. (The level after a
  kept wall is completable whatever it was before.)\<close>

theorem accepted_wall_keeps_completable:
  assumes "verified_wall_attempt lvl seed = Inr (Accepted, lvl', seed')"
    and "fst (level_is_completable lvl)"
  shows "fst (level_is_completable lvl')"
proof -
  obtain i where "verified_wall lvl i = (Accepted, lvl')"
    using assms(1) unfolding verified_wall_attempt_def
    by (auto simp: Let_def split: prod.splits option.splits)
  then show ?thesis by (rule verified_wall_accepted)
qed

theorem accepted_wall_keeps_completable_witness:
  "fst (level_is_completable open_level) \<and>
   verified_wall_attempt open_level (1, 0) =
     Inr (Accepted, open_level[23 := BIT WALL], (1196337638932513, 1125968760537344)) \<and>
   fst (level_is_completable (open_level[23 := BIT WALL]))"
  using accepted_wall_keeps_completable [OF wall_attempt_open_level open_level_completable]
    wall_attempt_open_level open_level_completable
  by simp

text \<open>Claim C5, at an input where the code breaks it. On the level that \<open>fill_level\<close> makes
  of walls, with the random source in the state \<open>(1, 0)\<close>, the attempt picks the cell
  \<open>(1, 1)\<close>, is rejected for want of a player, and its XOR takes the wall that was there out
  of the tile: the level after the rejected attempt is not the level before it.\<close>

theorem rejected_wall_removes_existing_wall:
  "fill_level (replicate 484 0) WALL = replicate 484 (BIT WALL) \<and>
   verified_wall_attempt (replicate 484 (BIT WALL)) (1, 0) =
     Inr (Rejected, (replicate 484 (BIT WALL))[23 := 0], (1196337638932513, 1125968760537344)) \<and>
   (replicate 484 (BIT WALL))[23 := 0] \<noteq> replicate 484 (BIT WALL)"
proof -
  let ?l = "replicate 484 (BIT WALL)"
  have "BIT WALL \<noteq> (0 :: Tile)" using bit_BIT_self [of WALL] by (auto simp: WALL_def)
  then have "?l[23 := 0] \<noteq> ?l" by (simp add: list_update_same_conv)
  moreover have "fill_level (replicate 484 0) WALL = ?l"
    using fill_level_replicate [of "replicate 484 0" WALL] by (simp add: LEVEL_SIZE_def)
  ultimately show ?thesis using wall_attempt_on_walls by blast
qed

text \<open>Claim C6, at an input where the code breaks it. On \<open>open_level\<close> the sweep keeps the
  wall it tries first in each row, at \<open>x = 1\<close>, and its \<^verbatim>\<open>break\<close> then leaves the row: the
  result is \<open>open_level\<close> with the twenty cells \<open>(1, y)\<close> walled and nothing else changed.
  The cell \<open>(2, 1)\<close>, at index 24, is still floor, although the level with a wall there is
  completable: the sweep never tried it.\<close>

theorem fill_generator_stops_each_row:
  "reverse_verified_fill_generator open_level =
     foldl (\<lambda>l y. l[1 + y * LEVEL_SIZE := BIT WALL]) open_level [1..<LEVEL_SIZE - 1] \<and>
   reverse_verified_fill_generator open_level ! 24 = BIT FLOOR \<and>
   fst (level_is_completable ((reverse_verified_fill_generator open_level)[24 := BIT WALL]))"
proof -
  have r: "[1..<LEVEL_SIZE - 1] = 1 # [2..<LEVEL_SIZE - 1]"
    by (simp add: LEVEL_SIZE_def upt_rec)
  have n: "\<And>y :: nat. 1 + y * 22 \<noteq> 115" "\<And>y :: nat. 1 + y * 22 \<noteq> 24" by presburger+
  have b: "\<forall>y \<in> set [1..<LEVEL_SIZE - 1]. 1 + y * LEVEL_SIZE \<noteq> 115 \<and> 1 + y * LEVEL_SIZE < 484"
    using n by (simp add: LEVEL_SIZE_def)
  note fs = fill_rows_settled [OF settled_open_level b, of "[2..<LEVEL_SIZE - 1]"]
  have g: "reverse_verified_fill_generator open_level =
      foldl (\<lambda>l y. l[1 + y * LEVEL_SIZE := BIT WALL]) open_level [1..<LEVEL_SIZE - 1]"
    unfolding reverse_verified_fill_generator_def using fs r by simp
  have "\<forall>y \<in> set [1..<LEVEL_SIZE - 1]. 1 + y * LEVEL_SIZE \<noteq> 24"
    using n by (simp add: LEVEL_SIZE_def)
  then have t: "reverse_verified_fill_generator open_level ! 24 = open_level ! 24"
    unfolding g by (rule foldl_update_other)
  have "settled ((reverse_verified_fill_generator open_level)[24 := BIT WALL])"
    unfolding g using fs by (intro settled_update wall_no_player) simp_all
  then show ?thesis using g t settled_completable by (simp add: open_level_def)
qed

text \<open>Claim C7, at an input where the code breaks it. From the state
  \<open>(18446744073709551615, 0)\<close> the generator returns \<open>2 ^ 64 - 1\<close>, which the conversion to
  float rounds to \<open>2 ^ 64\<close>: \<open>random_float\<close> is exactly 1 and \<open>random_int_range 1 20\<close>
  returns 21, above \<open>high\<close>.\<close>

theorem random_int_range_above_high:
  "fst (random_u64 (18446744073709551615, 0)) = UINT64_MAX \<and>
   fst (random_float (18446744073709551615, 0)) = 1 \<and>
   fst (random_int_range 1 20 (18446744073709551615, 0)) = 21"
  by code_simp

text \<open>Claim C8. A level of 484 tiles is written and read back unchanged. When the stream
  accepts the 968 bytes of the level, \<open>write_level\<close> reports success; once the buffer of the
  stream has gone to the file, during the call or by the \<open>fflush\<close> that follows it, the file
  holds, after what the stream had buffered before, the two bytes of each tile in the order of
  the array, with nothing before, between or after them; and \<open>load_level\<close>, reading with the
  same byte order from the place where the level begins, reports success and yields the same
  484 tiles.\<close>

theorem write_then_load_level:
  assumes "length lvl = LEVEL_SIZE * LEVEL_SIZE" and "length buf = LEVEL_SIZE * LEVEL_SIZE"
    and "position file \<le> length (contents file)" and "2 * (LEVEL_SIZE * LEVEL_SIZE) \<le> room"
    and "length (buffered file) + 2 * (LEVEL_SIZE * LEVEL_SIZE) \<le> dev + dev'"
  shows "fst (write_level bo room dev file lvl) \<and>
    fst (fflush dev' (snd (write_level bo room dev file lvl))) \<and>
    contents (snd (fflush dev' (snd (write_level bo room dev file lvl)))) =
      take (position file) (contents file) @ buffered file @ concat (map (bytes_of_tile bo) lvl) @
      drop (position file + length (buffered file) + 2 * (LEVEL_SIZE * LEVEL_SIZE)) (contents file) \<and>
    fst (load_level bo ((snd (fflush dev' (snd (write_level bo room dev file lvl))))
        \<lparr>position := position file + length (buffered file)\<rparr>) buf) \<and>
    fst (snd (load_level bo ((snd (fflush dev' (snd (write_level bo room dev file lvl))))
        \<lparr>position := position file + length (buffered file)\<rparr>) buf)) = lvl"
proof -
  let ?n = "LEVEL_SIZE * LEVEL_SIZE"
  let ?bytes = "concat (map (bytes_of_tile bo) lvl)"
  let ?p = "position file"
  let ?b = "buffered file"
  have lb: "length ?bytes = 2 * ?n" using assms(1) by (simp add: length_tile_bytes)
  have tk: "take room (concat (map (bytes_of_tile bo) (take ?n lvl))) = ?bytes"
    using assms(1,4) lb by simp
  have pos: "0 < ?n" by (simp add: LEVEL_SIZE_def)
  define f1 where "f1 = file\<lparr>buffered := ?b @ ?bytes\<rparr>"
  have f1: "contents f1 = contents file" "position f1 = ?p" "buffered f1 = ?b @ ?bytes"
    by (simp_all add: f1_def)
  have w: "write_level bo room dev file lvl = (True, snd (fflush dev f1))"
    unfolding write_level_def fwrite_tiles_def Let_def tk f1_def using lb pos by simp
  have ok: "fst (fflush dev' (snd (fflush dev f1)))"
    using assms(5) lb unfolding fflush_def Let_def f1 by simp
  let ?tail = "drop (?p + length ?b + 2 * ?n) (contents file)"
  define f2 where "f2 = f1\<lparr>contents := take ?p (contents file) @ ?b @ ?bytes @ ?tail,
      position := ?p + length ?b + 2 * ?n, buffered := []\<rparr>"
  have "snd (fflush dev' (snd (fflush dev f1))) = snd (fflush (dev + dev') f1)"
    using assms(3) by (simp add: fflush_twice f1)
  also have "\<dots> = f2"
    using assms(5) lb by (simp add: fflush_all f1 f2_def add.assoc)
  finally have e: "snd (fflush dev' (snd (fflush dev f1))) = f2" .
  define f3 where "f3 = f2\<lparr>position := ?p + length ?b\<rparr>"
  have c: "contents f3 = take ?p (contents file) @ ?b @ ?bytes @ ?tail"
    "position f3 = ?p + length ?b" by (simp_all add: f3_def f2_def)
  have rest: "drop (?p + length ?b) (take ?p (contents file) @ ?b @ ?bytes @ ?tail) =
      ?bytes @ ?tail"
    using assms(3) by simp
  have t: "take (2 * ?n) (?bytes @ ?tail) = ?bytes" using lb by simp
  have m: "drop (length ?bytes) (concat (map (bytes_of_tile bo) buf)) = []"
    using lb assms(2) by (simp add: length_tile_bytes)
  have r: "fst (fread_tiles bo buf ?n f3) = ?n"
    "fst (snd (fread_tiles bo buf ?n f3)) = lvl"
    unfolding fread_tiles_def Let_def c rest t m using lb
    by (simp_all add: tiles_of_bytes_of_tiles)
  have l: "fst (load_level bo f3 buf) = (fst (fread_tiles bo buf ?n f3) \<noteq> 0)"
    "fst (snd (load_level bo f3 buf)) = fst (snd (fread_tiles bo buf ?n f3))"
    by (simp_all add: load_level_def split: prod.split)
  have c2: "contents f2 = take ?p (contents file) @ ?b @ ?bytes @ ?tail" by (simp add: f2_def)
  show ?thesis unfolding w snd_conv fst_conv e using ok l r pos c2
    by (simp add: e f3_def [symmetric])
qed

theorem write_then_load_level_witness:
  "fst (snd (load_level Little_Endian
      ((snd (fflush 968 (snd (write_level Little_Endian 968 0
           \<lparr>contents = [], position = 0, buffered = []\<rparr> open_level))))
         \<lparr>position := 0\<rparr>) (replicate 484 0))) = open_level"
  using write_then_load_level [of open_level "replicate 484 0"
      "\<lparr>contents = [], position = 0, buffered = []\<rparr>" 968 0 968 Little_Endian]
  by (simp add: LEVEL_SIZE_def open_level_def)



text \<open>Claim C10. \<open>level_is_completable\<close> leaves the level as it found it: its visitor
  \<open>flood_record_tiles\<close> never signals stop and hands each tile back unchanged, so the
  level after the call is the level before it.\<close>

theorem level_is_completable_leaves_level:
  "observer flood_record_tiles \<and> snd (level_is_completable lvl) = lvl"
  by (simp add: observer_flood_record_tiles level_is_completable_char split: option.split)

section \<open>Further properties\<close>

text \<open>A rejected attempt of \<open>reverse_verified_scatter_generator\<close> rewrites only the chosen
  tile, to what OR and then XOR with the wall's bit leave of it: the level is unchanged
  exactly when that tile did not hold a wall before the attempt, and otherwise has lost that
  tile's wall bit.\<close>

theorem rejected_wall_restores_iff:
  assumes "verified_wall_attempt lvl seed = Inr (Rejected, lvl', seed')"
  shows "\<exists>i. lvl' = lvl[i := (lvl ! i OR BIT WALL) XOR BIT WALL] \<and>
    (lvl' = lvl \<longleftrightarrow> \<not> (i < length lvl \<and> bit (lvl ! i) WALL))"
proof -
  obtain i where "verified_wall lvl i = (Rejected, lvl')"
    using assms unfolding verified_wall_attempt_def
    by (auto simp: Let_def split: prod.splits option.splits)
  then show ?thesis using verified_wall_rejected [of lvl i lvl'] by blast
qed

theorem rejected_wall_restores_iff_witness:
  "\<exists>i. (replicate 484 (BIT WALL))[23 := 0] =
       (replicate 484 (BIT WALL))[i := (replicate 484 (BIT WALL) ! i OR BIT WALL) XOR BIT WALL] \<and>
     ((replicate 484 (BIT WALL))[23 := 0] = replicate 484 (BIT WALL) \<longleftrightarrow>
        \<not> (i < length (replicate 484 (BIT WALL) :: Level) \<and> bit (replicate 484 (BIT WALL) ! i) WALL))"
  using rejected_wall_restores_iff [OF wall_attempt_on_walls] .


text \<open>The loops of \<open>reverse_verified_scatter_generator\<close>, for any number of walls and of
  attempts: when they end on a level, a level that was completable at the start is
  completable at the end. Skipped and rejected attempts leave a completable level as it was,
  and accepted ones passed the check.\<close>

theorem scatter_generator_keeps_completable:
  assumes "verified_walls attempts n lvl seed = Inr (lvl', seed')" "fst (level_is_completable lvl)"
  shows "fst (level_is_completable lvl')"
  using assms
proof (induction n arbitrary: lvl seed)
  case 0
  then show ?case by simp
next
  case (Suc n)
  obtain l1 s1 where a: "verified_wall_attempts attempts lvl seed = Inr (l1, s1)"
    using Suc.prems(1) by (cases "verified_wall_attempts attempts lvl seed") auto
  have "fst (level_is_completable l1)"
    using verified_wall_attempts_keep_completable [OF a Suc.prems(2)] .
  moreover have "verified_walls attempts n l1 s1 = Inr (lvl', seed')" using Suc.prems(1) a by simp
  ultimately show ?case using Suc.IH by blast
qed


theorem scatter_generator_keeps_completable_witness:
  "verified_walls 1 1 open_level (1, 0) =
     Inr (open_level[23 := BIT WALL], (1196337638932513, 1125968760537344)) \<and>
   fst (level_is_completable (open_level[23 := BIT WALL]))"
proof -
  have a: "verified_walls 1 1 open_level (1, 0) =
      Inr (open_level[23 := BIT WALL], (1196337638932513, 1125968760537344))"
    by (simp add: wall_attempt_open_level)
  show ?thesis using scatter_generator_keeps_completable [OF a open_level_completable] a by simp
qed


text \<open>\<open>fill_level\<close> sets every tile of a level of 484 tiles to the bit of the entity alone.\<close>

theorem fill_level_sets_every_tile:
  assumes "length lvl = LEVEL_SIZE * LEVEL_SIZE"
  shows "fill_level lvl entity = replicate (LEVEL_SIZE * LEVEL_SIZE) (BIT entity)"
  using assms by (rule fill_level_replicate)

theorem fill_level_sets_every_tile_witness:
  "fill_level open_level WALL = replicate (LEVEL_SIZE * LEVEL_SIZE) (BIT WALL)"
proof -
  have "length open_level = LEVEL_SIZE * LEVEL_SIZE"
    by (simp add: open_level_def LEVEL_SIZE_def)
  then show ?thesis by (rule fill_level_sets_every_tile)
qed

end
